theory Spec2Isabelle
  imports Main "HOL-Library.Word" "HOL-Library.Log_Nat"
begin

unbundle bit_operations_syntax

section \<open>The protocol-buffer codec of lensProto.py\<close>

text \<open>
  Python integers are unbounded: they are modelled as \<open>int\<close>, with \<open>&\<close>, \<open>|\<close>, \<open><<\<close>
  and \<open>>>\<close> as \<open>AND\<close>, \<open>OR\<close>, \<open>push_bit\<close> and \<open>drop_bit\<close>. A \<open>bytes\<close> object is a
  list of 8-bit words. Exceptions are values: every function that can raise returns
  \<open>py_error + 'a\<close>, with \<open>Inl\<close> for the exception. The text of a \<open>ProtoError\<close> is kept as
  the constant part of its message, one constructor for each raise site; the byte
  offsets interpolated into the messages are left out.
\<close>

type_synonym byte = "8 word"

datatype proto_msg =
    VarintTooLong
  | InvalidFieldIndex0
  | ErrorSkippingUnknownField proto_msg
  | TruncatedSkippingUnknownField
  | UnterminatedGroup
  | UnexpectedGroupEnd
  | TruncatedWhileSkippingGroup
  | TruncatedSkippingGroupField
  | ErrorSkippingGroupField proto_msg
  | SkipStandaloneGroupEnd
  | CannotSkipUnknownWireType
  | DataTruncatedNear
  | ParsingNear proto_msg
  | NotAnIntegerType
  | NotABytesType
  | NonUtf8Bytes
  | FailedToParseField proto_msg
  | NotAProtoBufType
  | InvalidDictKey
  | UnsupportedValueType
  | CannotSerializeGroup
  | UnexpectedError
  | UnsupportedInitType

datatype py_error =
    IndexError | ProtoError proto_msg | OverflowError | TypeError | ValueError
  | AttributeError | UnicodeEncodeError | RecursionError

subsection \<open>ProtoReader\<close>

text \<open>
  The reader is a buffer and a position that only moves forward (\<open>seek\<close> is never
  called). It is modelled by the bytes not yet read: \<open>pos = len - length reader\<close>.
  \<open>read0\<close> and \<open>read\<close> raise \<open>IndexError\<close> when fewer bytes remain than asked for;
  the length given to \<open>read\<close> comes from \<open>readVarint\<close> or is 4 or 8, never negative.
  \<open>readVarint\<close> is the \<open>while True\<close> loop with its variables \<open>vint\<close> and \<open>n\<close>.
\<close>

type_synonym ProtoReader = "byte list"

definition isRemain :: "ProtoReader \<Rightarrow> nat \<Rightarrow> bool" where
  "isRemain reader len = (len \<le> length reader)"

definition read0 :: "ProtoReader \<Rightarrow> py_error + (int \<times> ProtoReader)" where
  "read0 reader =
     (if \<not> isRemain reader 1 then Inl IndexError
      else Inr (uint (hd reader), tl reader))"

definition read :: "ProtoReader \<Rightarrow> int \<Rightarrow> py_error + (byte list \<times> ProtoReader)" where
  "read reader len =
     (if \<not> isRemain reader (nat len) then Inl IndexError
      else Inr (take (nat len) reader, drop (nat len) reader))"

fun from_bytes_little :: "byte list \<Rightarrow> int" where
  "from_bytes_little [] = 0"
| "from_bytes_little (b # bs) = uint b + 256 * from_bytes_little bs"

definition readInt32 :: "ProtoReader \<Rightarrow> py_error + (int \<times> ProtoReader)" where
  "readInt32 reader =
     (case read reader 4 of Inl e \<Rightarrow> Inl e
      | Inr (bs, r) \<Rightarrow> Inr (from_bytes_little bs, r))"

definition readInt64 :: "ProtoReader \<Rightarrow> py_error + (int \<times> ProtoReader)" where
  "readInt64 reader =
     (case read reader 8 of Inl e \<Rightarrow> Inl e
      | Inr (bs, r) \<Rightarrow> Inr (from_bytes_little bs, r))"

lemma read0_length: "read0 reader = Inr (b, r) \<Longrightarrow> length r < length reader"
  by (cases reader) (auto simp: read0_def isRemain_def split: if_splits)

function readVarint_loop ::
  "ProtoReader \<Rightarrow> int \<Rightarrow> nat \<Rightarrow> py_error + (int \<times> ProtoReader)" where
  "readVarint_loop reader vint n =
     (case read0 reader of Inl e \<Rightarrow> Inl e
      | Inr (byte, r) \<Rightarrow>
          (let vint' = vint OR push_bit (7 * n) (byte AND 0x7F) in
           if byte < 0x80 then Inr (vint', r)
           else if n + 1 > 10 then Inl (ProtoError VarintTooLong)
           else readVarint_loop r vint' (n + 1)))"
  by pat_completeness auto
termination
  by (relation "measure (\<lambda>(reader, vint, n). length reader)") (auto dest: read0_length)

declare readVarint_loop.simps [simp del]

definition readVarint :: "ProtoReader \<Rightarrow> py_error + (int \<times> ProtoReader)" where
  "readVarint reader = readVarint_loop reader 0 0"

definition readString :: "ProtoReader \<Rightarrow> py_error + (byte list \<times> ProtoReader)" where
  "readString reader =
     (case readVarint reader of Inl e \<Rightarrow> Inl e
      | Inr (len, r) \<Rightarrow> read r len)"

subsection \<open>ProtoWriter\<close>

text \<open>
  The writer is its \<open>bytearray\<close>; each method returns the extended array.
  \<open>int.to_bytes(k, 'little', signed=False)\<close> raises \<open>OverflowError\<close> for a negative
  value and for one that needs more than \<open>k\<close> bytes. \<open>writeVarint\<close> is the zero case
  and the \<open>while temp_vint > 0\<close> loop.
\<close>

type_synonym ProtoWriter = "byte list"

definition write0 :: "int \<Rightarrow> ProtoWriter \<Rightarrow> ProtoWriter" where
  "write0 byte w = w @ [word_of_int (byte AND 0xFF)]"

definition write_bytes :: "byte list \<Rightarrow> ProtoWriter \<Rightarrow> ProtoWriter" where
  "write_bytes bytes_data w = w @ bytes_data"

fun to_bytes_little_loop :: "nat \<Rightarrow> int \<Rightarrow> byte list" where
  "to_bytes_little_loop 0 v = []"
| "to_bytes_little_loop (Suc k) v = word_of_int (v mod 256) # to_bytes_little_loop k (v div 256)"

definition to_bytes_little :: "nat \<Rightarrow> int \<Rightarrow> py_error + byte list" where
  "to_bytes_little k v =
     (if v < 0 \<or> 2 ^ (8 * k) \<le> v then Inl OverflowError
      else Inr (to_bytes_little_loop k v))"

definition writeInt32 :: "int \<Rightarrow> ProtoWriter \<Rightarrow> py_error + ProtoWriter" where
  "writeInt32 int32 w =
     (case to_bytes_little 4 int32 of Inl e \<Rightarrow> Inl e | Inr bs \<Rightarrow> Inr (write_bytes bs w))"

definition writeInt64 :: "int \<Rightarrow> ProtoWriter \<Rightarrow> py_error + ProtoWriter" where
  "writeInt64 int64 w =
     (case to_bytes_little 8 int64 of Inl e \<Rightarrow> Inl e | Inr bs \<Rightarrow> Inr (write_bytes bs w))"

lemma drop_bit_7_less: "0 < (v::int) \<Longrightarrow> drop_bit 7 v < v"
  by (simp add: drop_bit_eq_div)

function writeVarint_loop :: "int \<Rightarrow> ProtoWriter \<Rightarrow> ProtoWriter" where
  "writeVarint_loop temp_vint w =
     (if temp_vint > 0 then
        (let byte = temp_vint AND 0x7F;
             temp' = drop_bit 7 temp_vint;
             byte' = (if temp' > 0 then byte OR 0x80 else byte)
         in writeVarint_loop temp' (write0 byte' w))
      else w)"
  by pat_completeness auto
termination
  by (relation "measure (\<lambda>(v, w). nat v)") (auto simp: drop_bit_eq_div)

declare writeVarint_loop.simps [simp del]

definition writeVarint :: "int \<Rightarrow> ProtoWriter \<Rightarrow> ProtoWriter" where
  "writeVarint vint w = (if vint = 0 then write0 0 w else writeVarint_loop vint w)"

definition writeString :: "byte list \<Rightarrow> ProtoWriter \<Rightarrow> ProtoWriter" where
  "writeString bytes_data w = write_bytes bytes_data (writeVarint (int (length bytes_data)) w)"

text \<open>The reader on an empty and on a non-empty buffer.\<close>

lemma read0_Cons: "read0 (b # r) = Inr (uint b, r)"
  by (simp add: read0_def isRemain_def)

lemma read0_Nil: "read0 [] = Inl IndexError"
  by (simp add: read0_def isRemain_def)

lemma readVarint_loop_Cons:
  "readVarint_loop (b # r) vint n =
     (if uint b < 0x80 then Inr (vint OR push_bit (7 * n) (uint b AND 0x7F), r)
      else if 10 \<le> n then Inl (ProtoError VarintTooLong)
      else readVarint_loop r (vint OR push_bit (7 * n) (uint b AND 0x7F)) (Suc n))"
  by (subst readVarint_loop.simps) (simp add: read0_Cons Let_def)

lemma readVarint_loop_Nil: "readVarint_loop [] vint n = Inl IndexError"
  by (subst readVarint_loop.simps) (simp add: read0_Nil)

subsection \<open>Fields\<close>

text \<open>
  \<open>ProtoFieldType\<close> is the \<open>IntEnum\<close> of the six wire types; \<open>type_value\<close> is its
  \<open>.value\<close>, and \<open>ProtoFieldType_of v\<close> is the constructor call \<open>ProtoFieldType(v)\<close>, with
  \<open>None\<close> for its \<open>ValueError\<close>. A \<open>ProtoField\<close> has the attributes \<open>idx\<close>, \<open>type\<close> (here
  \<open>ftype\<close>) and \<open>val\<close>; the value is untyped in Python and holds an \<open>int\<close>, a \<open>bytes\<close>
  object or a \<open>ProtoBuf\<close>. A \<open>ProtoBuf\<close> is its list \<open>fields\<close>.
\<close>

datatype ProtoFieldType = VARINT | INT64 | STRING | GROUPSTART | GROUPEND | INT32

fun type_value :: "ProtoFieldType \<Rightarrow> int" where
  "type_value VARINT = 0"
| "type_value INT64 = 1"
| "type_value STRING = 2"
| "type_value GROUPSTART = 3"
| "type_value GROUPEND = 4"
| "type_value INT32 = 5"

definition ProtoFieldType_of :: "int \<Rightarrow> ProtoFieldType option" where
  "ProtoFieldType_of v =
     (if v = 0 then Some VARINT else if v = 1 then Some INT64 else if v = 2 then Some STRING
      else if v = 3 then Some GROUPSTART else if v = 4 then Some GROUPEND
      else if v = 5 then Some INT32 else None)"

datatype ProtoField = ProtoField (idx: int) (ftype: ProtoFieldType) (val: pyval)
  and pyval = PyInt int | PyBytes "byte list" | PyProtoBuf "ProtoField list"

type_synonym ProtoBuf = "ProtoField list"

text \<open>Every read leaves less input behind; the loops below terminate by this.\<close>

lemma readVarint_loop_length:
  "readVarint_loop reader vint n = Inr (v, r) \<Longrightarrow> length r < length reader"
proof (induction reader vint n rule: readVarint_loop.induct)
  case (1 reader vint n)
  show ?case
  proof (cases reader)
    case Nil
    with "1.prems" show ?thesis by (simp add: readVarint_loop_Nil)
  next
    case (Cons b r')
    have r0: "read0 reader = Inr (uint b, r')" by (simp add: Cons read0_Cons)
    show ?thesis
    proof (cases "uint b < 0x80")
      case True
      with "1.prems" Cons show ?thesis by (simp add: readVarint_loop_Cons)
    next
      case False
      with "1.prems" Cons have n: "\<not> 10 < n + 1"
        by (auto simp: readVarint_loop_Cons split: if_splits)
      from "1.prems" Cons False n
      have "readVarint_loop r' (vint OR push_bit (7 * n) (uint b AND 0x7F)) (n + 1) = Inr (v, r)"
        by (auto simp: readVarint_loop_Cons split: if_splits)
      from "1.IH"[OF r0 refl refl False n this] Cons show ?thesis by simp
    qed
  qed
qed

lemma readVarint_length: "readVarint reader = Inr (v, r) \<Longrightarrow> length r < length reader"
  unfolding readVarint_def by (rule readVarint_loop_length)

lemma read_length: "read reader len = Inr (bs, r) \<Longrightarrow> length r \<le> length reader"
  by (auto simp: read_def split: if_splits)

subsection \<open>Skipping a field\<close>

text \<open>
  \<open>skipField\<close> is recursive only in its GROUPSTART branch, and the call it makes there,
  \<open>self.skipField(wt)\<close>, has a wire type other than GROUPSTART and GROUPEND. So the other
  branches are defined first (\<open>skipField_nongroup\<close>), then the \<open>while depth > 0\<close> loop
  (\<open>skipField_group\<close>), then \<open>skipField\<close> itself. The \<open>try\<close> around the body of the loop
  turns an \<open>IndexError\<close> and a \<open>ProtoError\<close> into a new \<open>ProtoError\<close>
  (\<open>wrap_group_skip\<close>).
\<close>

definition skipField_nongroup :: "int \<Rightarrow> ProtoReader \<Rightarrow> py_error + ProtoReader" where
  "skipField_nongroup wire_type reader =
     (if wire_type = type_value VARINT then
        (case readVarint reader of Inl e \<Rightarrow> Inl e | Inr (v, r) \<Rightarrow> Inr r)
      else if wire_type = type_value INT64 then
        (case read reader 8 of Inl e \<Rightarrow> Inl e | Inr (bs, r) \<Rightarrow> Inr r)
      else if wire_type = type_value STRING then
        (case readVarint reader of Inl e \<Rightarrow> Inl e
         | Inr (len, r) \<Rightarrow> (case read r len of Inl e \<Rightarrow> Inl e | Inr (bs, r') \<Rightarrow> Inr r'))
      else if wire_type = type_value GROUPEND then Inl (ProtoError SkipStandaloneGroupEnd)
      else if wire_type = type_value INT32 then
        (case read reader 4 of Inl e \<Rightarrow> Inl e | Inr (bs, r) \<Rightarrow> Inr r)
      else Inl (ProtoError CannotSkipUnknownWireType))"

lemma skipField_nongroup_length:
  "skipField_nongroup wt reader = Inr r \<Longrightarrow> length r \<le> length reader"
  by (auto simp: skipField_nongroup_def split: if_splits sum.splits
           dest!: readVarint_length read_length)

definition wrap_group_skip :: "py_error \<Rightarrow> py_error" where
  "wrap_group_skip e =
     (case e of IndexError \<Rightarrow> ProtoError TruncatedSkippingGroupField
      | ProtoError m \<Rightarrow> ProtoError (ErrorSkippingGroupField m)
      | _ \<Rightarrow> e)"

function skipField_group :: "int \<Rightarrow> ProtoReader \<Rightarrow> py_error + ProtoReader" where
  "skipField_group depth reader =
     (if \<not> depth > 0 then Inr reader
      else if \<not> isRemain reader 1 then Inl (ProtoError TruncatedWhileSkippingGroup)
      else
        (case readVarint reader of Inl e \<Rightarrow> Inl (wrap_group_skip e)
         | Inr (key, r) \<Rightarrow>
             (let wt = key AND 0x7 in
              if wt = type_value GROUPEND then skipField_group (depth - 1) r
              else if wt = type_value GROUPSTART then skipField_group (depth + 1) r
              else (case skipField_nongroup wt r of Inl e \<Rightarrow> Inl (wrap_group_skip e)
                    | Inr r' \<Rightarrow> skipField_group depth r'))))"
  by pat_completeness auto
termination
  by (relation "measure (\<lambda>(depth, reader). length reader)")
     (auto dest!: readVarint_length skipField_nongroup_length)

declare skipField_group.simps [simp del]

definition skipField :: "int \<Rightarrow> ProtoReader \<Rightarrow> py_error + ProtoReader" where
  "skipField wire_type reader =
     (if wire_type = type_value GROUPSTART then skipField_group 1 reader
      else skipField_nongroup wire_type reader)"

lemma skipField_group_length:
  "skipField_group depth reader = Inr r \<Longrightarrow> length r \<le> length reader"
proof (induction depth reader rule: skipField_group.induct)
  case (1 depth reader)
  show ?case
  proof (cases "depth > 0 \<and> isRemain reader 1")
    case False
    with "1.prems" show ?thesis
      by (subst (asm) skipField_group.simps) (auto split: if_splits)
  next
    case True
    then have d: "\<not> \<not> depth > 0" "\<not> \<not> isRemain reader 1" by auto
    from "1.prems" True obtain key r1 where rv: "readVarint reader = Inr (key, r1)"
      by (subst (asm) skipField_group.simps) (auto split: sum.splits)
    note IH = "1.IH"[OF d rv refl refl]
    from readVarint_length[OF rv] have l1: "length r1 < length reader" .
    from "1.prems" True rv
    have cases: "(key AND 7 = 4 \<and> skipField_group (depth - 1) r1 = Inr r)
        \<or> (key AND 7 \<noteq> 4 \<and> key AND 7 = 3 \<and> skipField_group (depth + 1) r1 = Inr r)
        \<or> (key AND 7 \<noteq> 4 \<and> key AND 7 \<noteq> 3 \<and> (\<exists>r2. skipField_nongroup (key AND 7) r1 = Inr r2 \<and> skipField_group depth r2 = Inr r))"
      by (subst (asm) skipField_group.simps) (auto simp: Let_def split: if_splits sum.splits)
    then show ?thesis
      using IH l1 by (fastforce dest: skipField_nongroup_length)
  qed
qed

lemma skipField_length: "skipField wt reader = Inr r \<Longrightarrow> length r \<le> length reader"
  by (auto simp: skipField_def dest: skipField_group_length skipField_nongroup_length split: if_splits)

subsection \<open>Parsing\<close>

text \<open>
  \<open>_parseFields\<close> appends to \<open>self.fields\<close>, moves the reader and returns a flag. The
  model takes the reader, \<open>group_idx_end\<close> and the fields so far, and returns the flag,
  the fields and the reader; the \<open>ProtoBuf()\<close> made for a group starts with no fields.
  In the branches that do not raise, \<open>value\<close> is an \<open>int\<close>, a \<open>bytes\<close> object or a
  \<open>ProtoBuf\<close>, never \<open>None\<close>, so the field is always stored. An unknown wire type (6 or 7)
  is handed to \<open>skipField\<close>, whose errors are wrapped by \<open>wrap_unknown_skip\<close>.

  The recursion is nested: the loop goes on with the reader that the call for a group
  returns. Termination therefore needs that a call which returns leaves no more input
  than it was given, first proved on the domain of the function.

  \<open>parseFields\<close> is the parser on a stack that never runs out: a call for a group is
  always admitted. The interpreter's recursion limit is added in \<open>parseFields_frames\<close>
  below, and the two give the same result whenever the limit is not reached.
\<close>

definition wrap_unknown_skip :: "py_error \<Rightarrow> py_error" where
  "wrap_unknown_skip e =
     (case e of ProtoError m \<Rightarrow> ProtoError (ErrorSkippingUnknownField m)
      | IndexError \<Rightarrow> ProtoError TruncatedSkippingUnknownField
      | _ \<Rightarrow> e)"

function parseFields ::
  "ProtoReader \<Rightarrow> int option \<Rightarrow> ProtoField list \<Rightarrow>
     py_error + (bool \<times> ProtoField list \<times> ProtoReader)" where
  "parseFields reader group_idx_end fields =
     (if \<not> isRemain reader 1 then Inr (group_idx_end = None, fields, reader)
      else
        (case readVarint reader of Inl e \<Rightarrow> Inl e
         | Inr (key, r1) \<Rightarrow>
             (let wire_type_val = key AND 0x7; field_idx = drop_bit 3 key in
              if field_idx = 0 then Inl (ProtoError InvalidFieldIndex0)
              else
                (case ProtoFieldType_of wire_type_val of
                   None \<Rightarrow>
                     (case skipField wire_type_val r1 of
                        Inl e \<Rightarrow> Inl (wrap_unknown_skip e)
                      | Inr r2 \<Rightarrow> parseFields r2 group_idx_end fields)
                 | Some field_type \<Rightarrow>
                     if group_idx_end \<noteq> None \<and> field_type = GROUPEND
                        \<and> Some field_idx = group_idx_end
                     then Inr (True, fields, r1)
                     else
                       (case
                          (case field_type of
                             VARINT \<Rightarrow>
                               (case readVarint r1 of Inl e \<Rightarrow> Inl e
                                | Inr (v, r2) \<Rightarrow> Inr (PyInt v, r2))
                           | INT64 \<Rightarrow>
                               (case readInt64 r1 of Inl e \<Rightarrow> Inl e
                                | Inr (v, r2) \<Rightarrow> Inr (PyInt v, r2))
                           | STRING \<Rightarrow>
                               (case readString r1 of Inl e \<Rightarrow> Inl e
                                | Inr (bs, r2) \<Rightarrow> Inr (PyBytes bs, r2))
                           | INT32 \<Rightarrow>
                               (case readInt32 r1 of Inl e \<Rightarrow> Inl e
                                | Inr (v, r2) \<Rightarrow> Inr (PyInt v, r2))
                           | GROUPSTART \<Rightarrow>
                               (case parseFields r1 (Some field_idx) [] of Inl e \<Rightarrow> Inl e
                                | Inr (found_end, nested_pb, r2) \<Rightarrow>
                                    if \<not> found_end then Inl (ProtoError UnterminatedGroup)
                                    else Inr (PyProtoBuf nested_pb, r2))
                           | GROUPEND \<Rightarrow> Inl (ProtoError UnexpectedGroupEnd))
                        of Inl e \<Rightarrow> Inl e
                         | Inr (value, r2) \<Rightarrow>
                             parseFields r2 group_idx_end
                               (fields @ [ProtoField field_idx field_type value]))))))"
  by pat_completeness auto


abbreviation field_value ::
  "ProtoFieldType \<Rightarrow> ProtoReader \<Rightarrow> py_error + (bool \<times> ProtoField list \<times> ProtoReader) \<Rightarrow>
     py_error + (pyval \<times> ProtoReader)" where
  "field_value field_type r1 nested \<equiv>
     (case field_type of
        VARINT \<Rightarrow>
          (case readVarint r1 of Inl e \<Rightarrow> Inl e
           | Inr (v, r2) \<Rightarrow> Inr (PyInt v, r2))
      | INT64 \<Rightarrow>
          (case readInt64 r1 of Inl e \<Rightarrow> Inl e
           | Inr (v, r2) \<Rightarrow> Inr (PyInt v, r2))
      | STRING \<Rightarrow>
          (case readString r1 of Inl e \<Rightarrow> Inl e
           | Inr (bs, r2) \<Rightarrow> Inr (PyBytes bs, r2))
      | INT32 \<Rightarrow>
          (case readInt32 r1 of Inl e \<Rightarrow> Inl e
           | Inr (v, r2) \<Rightarrow> Inr (PyInt v, r2))
      | GROUPSTART \<Rightarrow>
          (case nested of Inl e \<Rightarrow> Inl e
           | Inr (found_end, nested_pb, r2) \<Rightarrow>
               if \<not> found_end then Inl (ProtoError UnterminatedGroup)
               else Inr (PyProtoBuf nested_pb, r2))
      | GROUPEND \<Rightarrow> Inl (ProtoError UnexpectedGroupEnd))"

lemma readInt64_length: "readInt64 reader = Inr (v, r) \<Longrightarrow> length r \<le> length reader"
  by (auto simp: readInt64_def split: sum.splits dest: read_length)

lemma readInt32_length: "readInt32 reader = Inr (v, r) \<Longrightarrow> length r \<le> length reader"
  by (auto simp: readInt32_def split: sum.splits dest: read_length)

lemma readString_length: "readString reader = Inr (bs, r) \<Longrightarrow> length r \<le> length reader"
  by (fastforce simp: readString_def split: sum.splits dest: read_length readVarint_length)

lemma field_value_length:
  assumes "field_value ft r1 nested = Inr (v, r2)"
    and "\<And>b fs. nested = Inr (b, fs, r2) \<Longrightarrow> length r2 \<le> length r1"
  shows "length r2 \<le> length r1"
proof (cases ft)
  case VARINT
  with assms(1) show ?thesis
    by (auto split: sum.splits dest: readVarint_length)
next
  case INT64
  with assms(1) show ?thesis
    by (auto split: sum.splits dest: readInt64_length)
next
  case STRING
  with assms(1) show ?thesis
    by (auto split: sum.splits dest: readString_length)
next
  case GROUPSTART
  with assms show ?thesis
    by (auto split: sum.splits if_splits)
next
  case GROUPEND
  with assms(1) show ?thesis by simp
next
  case INT32
  with assms(1) show ?thesis
    by (auto split: sum.splits dest: readInt32_length)
qed

lemma parseFields_dom_length:
  "parseFields_dom (reader, g, fields) \<Longrightarrow> parseFields reader g fields = Inr (b, fs, r)
     \<Longrightarrow> length r \<le> length reader"
proof (induction reader g fields arbitrary: b fs r rule: parseFields.pinduct)
  case (1 reader g fields)
  note eq = "1.prems"[unfolded parseFields.psimps[OF "1.hyps"]]
  show ?case
  proof (cases "isRemain reader 1")
    case False
    with eq show ?thesis by simp
  next
    case True
    then have nn: "\<not> \<not> isRemain reader 1" by simp
    from eq True obtain key r1 where rv: "readVarint reader = Inr (key, r1)"
      by (auto split: sum.splits)
    have l1: "length r1 < length reader" by (rule readVarint_length[OF rv])
    from eq True rv have nz: "drop_bit 3 key \<noteq> 0"
      by (auto simp: Let_def split: if_splits)
    show ?thesis
    proof (cases "ProtoFieldType_of (key AND 7)")
      case None
      with eq True rv nz obtain r2 where sk: "skipField (key AND 7) r1 = Inr r2"
        and rec: "parseFields r2 g fields = Inr (b, fs, r)"
        by (auto simp: Let_def split: sum.splits)
      from "1.IH"(1)[OF nn rv refl refl refl nz None sk rec] skipField_length[OF sk] l1
      show ?thesis by simp
    next
      case (Some ft)
      show ?thesis
      proof (cases "g \<noteq> None \<and> ft = GROUPEND \<and> Some (drop_bit 3 key) = g")
        case True
        with eq \<open>isRemain reader 1\<close> rv nz Some have "r = r1"
          by (auto simp: Let_def)
        with l1 show ?thesis by simp
      next
        case False
        let ?X = "field_value ft r1 (parseFields r1 (Some (drop_bit 3 key)) [])"
        from False eq \<open>isRemain reader 1\<close> rv nz Some
        have eq': "(case ?X of Inl e \<Rightarrow> Inl e
                    | Inr (v, r2) \<Rightarrow> parseFields r2 g (fields @ [ProtoField (drop_bit 3 key) ft v]))
                   = Inr (b, fs, r)"
          by (auto simp: Let_def)
        then obtain v r2 where
          fv: "?X = Inr (v, r2)"
          and rec: "parseFields r2 g (fields @ [ProtoField (drop_bit 3 key) ft v]) = Inr (b, fs, r)"
          by (cases ?X) auto
        have "length r2 \<le> length r1"
        proof (rule field_value_length[OF fv])
          fix b' fs'
          assume n: "parseFields r1 (Some (drop_bit 3 key)) [] = Inr (b', fs', r2)"
          from fv n have "ft = GROUPSTART \<or> ft \<noteq> GROUPSTART" by simp
          show "length r2 \<le> length r1"
          proof (cases "ft = GROUPSTART")
            case True
            from "1.IH"(2)[OF nn rv refl refl refl nz Some False True n] show ?thesis .
          next
            case False
            with fv show ?thesis
              by (cases ft) (auto split: sum.splits dest: readVarint_length readInt64_length readString_length readInt32_length)
          qed
        qed
        moreover from "1.IH"(3)[OF nn rv refl refl refl nz Some False fv refl rec]
        have "length r \<le> length r2" .
        ultimately show ?thesis using l1 by simp
      qed
    qed
  qed
qed

termination parseFields
proof (relation "measure (\<lambda>(reader, g, fields). length reader)", goal_cases)
  case 1
  show ?case by simp
next
  case (2 reader g fields b x y xa xb ba)
  then show ?case
    by (auto dest!: readVarint_length skipField_length)
next
  case (3 reader g fields b x y xa xb x2)
  then show ?case
    by (auto dest!: readVarint_length)
next
  case (4 reader g fields b x y xa xb x2 ba xc ya)
  from 4(2,3) have "length y < length reader"
    by (auto dest!: readVarint_length)
  moreover have "length ya \<le> length y"
  proof (rule field_value_length)
    show "field_value x2 y (parseFields y (Some xb) []) = Inr (xc, ya)"
      using 4 by simp
  next
    fix b' fs'
    assume n: "parseFields y (Some xb) [] = Inr (b', fs', ya)"
    show "length ya \<le> length y"
    proof (cases "x2 = GROUPSTART")
      case True
      with 4 have "parseFields_dom (y, Some xb, [])" by simp
      from parseFields_dom_length[OF this n] show ?thesis .
    next
      case False
      with 4(9,10) show ?thesis
        by (cases x2) (auto split: sum.splits dest: readVarint_length readInt64_length readString_length readInt32_length)
    qed
  qed
  ultimately show ?case by simp
qed

declare parseFields.simps [simp del]

subsection \<open>Constructing from bytes, serializing\<close>

text \<open>
  \<open>ProtoBuf(data)\<close> for a \<open>bytes\<close> argument: an empty buffer gives an empty tree; the
  \<open>try\<close> turns an \<open>IndexError\<close> into the \<open>ProtoError\<close> "Data truncated near position
  ...", adds "(parsing near position ...)" to a \<open>ProtoError\<close>, and turns anything else
  into "Unexpected error parsing ...".
\<close>

definition ProtoBuf_bytes :: "byte list \<Rightarrow> py_error + ProtoBuf" where
  "ProtoBuf_bytes data =
     (if length data > 0 then
        (case parseFields data None [] of
           Inl IndexError \<Rightarrow> Inl (ProtoError DataTruncatedNear)
         | Inl (ProtoError m) \<Rightarrow> Inl (ProtoError (ParsingNear m))
         | Inl e \<Rightarrow> Inl (ProtoError UnexpectedError)
         | Inr (found_end, fields, r) \<Rightarrow> Inr fields)
      else Inr [])"

text \<open>
  \<open>toBuf\<close> writes the tag of each field and then its value. Where the value has not the
  type its wire type needs, Python raises: comparing a non-integer with 0 in
  \<open>writeVarint\<close> is a \<open>TypeError\<close>, a missing \<open>to_bytes\<close> an \<open>AttributeError\<close>,
  \<open>to_bytes\<close> out of range an \<open>OverflowError\<close>; \<open>bytes(n)\<close> of an integer is \<open>n\<close> zero
  bytes, or a \<open>ValueError\<close> when \<open>n\<close> is negative. A stored GROUPEND field writes its tag
  and nothing else.
\<close>

lemma size_val_PyProtoBuf:
  "val field = PyProtoBuf pb \<Longrightarrow> size_list size pb < size field"
  by (cases field) simp

function (sequential) toBuf_loop :: "ProtoField list \<Rightarrow> ProtoWriter \<Rightarrow> py_error + ProtoWriter" where
  "toBuf_loop [] writer = Inr writer"
| "toBuf_loop (field # rest) writer =
     (let key = push_bit 3 (idx field) OR (type_value (ftype field) AND 7);
          w1 = writeVarint key writer
      in case ftype field of
           VARINT \<Rightarrow>
             (case val field of PyInt v \<Rightarrow> toBuf_loop rest (writeVarint v w1)
              | _ \<Rightarrow> Inl TypeError)
         | INT64 \<Rightarrow>
             (case val field of
                PyInt v \<Rightarrow>
                  (case writeInt64 v w1 of Inl e \<Rightarrow> Inl e | Inr w2 \<Rightarrow> toBuf_loop rest w2)
              | _ \<Rightarrow> Inl AttributeError)
         | STRING \<Rightarrow>
             (case val field of
                PyProtoBuf pb \<Rightarrow>
                  (case toBuf_loop pb [] of Inl e \<Rightarrow> Inl e
                   | Inr val_bytes \<Rightarrow> toBuf_loop rest (writeString val_bytes w1))
              | PyBytes val_bytes \<Rightarrow> toBuf_loop rest (writeString val_bytes w1)
              | PyInt n \<Rightarrow>
                  if n < 0 then Inl ValueError
                  else toBuf_loop rest (writeString (replicate (nat n) 0) w1))
         | INT32 \<Rightarrow>
             (case val field of
                PyInt v \<Rightarrow>
                  (case writeInt32 v w1 of Inl e \<Rightarrow> Inl e | Inr w2 \<Rightarrow> toBuf_loop rest w2)
              | _ \<Rightarrow> Inl AttributeError)
         | GROUPSTART \<Rightarrow>
             (case val field of
                PyProtoBuf pb \<Rightarrow>
                  (case toBuf_loop pb [] of Inl e \<Rightarrow> Inl e
                   | Inr group_bytes \<Rightarrow>
                       (let w2 = write_bytes group_bytes w1;
                            end_key = push_bit 3 (idx field) OR (type_value GROUPEND AND 7)
                        in toBuf_loop rest (writeVarint end_key w2)))
              | _ \<Rightarrow> Inl (ProtoError CannotSerializeGroup))
         | GROUPEND \<Rightarrow> toBuf_loop rest w1)"
  by pat_completeness auto
termination
  by (relation "measure (\<lambda>(fields, writer). size_list size fields)")
     (auto dest: size_val_PyProtoBuf)

declare toBuf_loop.simps(2) [simp del]

definition toBuf :: "ProtoBuf \<Rightarrow> py_error + byte list" where
  "toBuf fields = toBuf_loop fields []"

subsection \<open>The interpreter's recursion limit\<close>

text \<open>
  Every open group is a frame of \<open>_parseFields\<close> on the interpreter's stack: the call
  \<open>nested_pb._parseFields(reader, group_idx_end=field_idx)\<close> returns only when the group
  is closed. CPython raises \<open>RecursionError\<close> when a call would go past its recursion
  limit. \<open>_parseFields\<close> catches \<open>ValueError\<close>, \<open>ProtoError\<close> and \<open>IndexError\<close> only, so
  the error reaches \<open>__init__\<close>, whose \<open>except Exception\<close> turns it into the
  \<open>ProtoError\<close> "Unexpected error parsing ...".

  \<open>parseFields_frames\<close> is \<open>_parseFields\<close> with the stack made explicit. \<open>frames\<close> is the
  number of calls of \<open>_parseFields\<close>, nested in one another, that the stack admits below
  the current one. A group that opens with \<open>frames = 0\<close> raises \<open>RecursionError\<close>; the
  call for a group runs with one frame less; the loop goes on with the frames it had.
  Everything else is as in \<open>parseFields\<close>.

  The other calls of a frame (to the reader, to \<open>ProtoFieldType\<close>, \<open>ProtoBuf\<close>,
  \<open>ProtoField\<close> and \<open>put\<close>) return before the next group is opened, and need a few
  frames at most; how many is the interpreter's matter, and the model gives them room
  wherever \<open>_parseFields\<close> itself is admitted. So a result of \<open>parseFields_frames\<close> other
  than \<open>RecursionError\<close> is the result of the code when \<open>frames\<close> counts the nested calls
  that the stack admits together with the calls they make; and \<open>RecursionError\<close> is what
  the code raises when \<open>frames\<close> counts all the nested calls that the stack admits.
\<close>

function parseFields_frames ::
  "nat \<Rightarrow> ProtoReader \<Rightarrow> int option \<Rightarrow> ProtoField list \<Rightarrow>
     py_error + (bool \<times> ProtoField list \<times> ProtoReader)" where
  "parseFields_frames frames reader group_idx_end fields =
     (if \<not> isRemain reader 1 then Inr (group_idx_end = None, fields, reader)
      else
        (case readVarint reader of Inl e \<Rightarrow> Inl e
         | Inr (key, r1) \<Rightarrow>
             (let wire_type_val = key AND 0x7; field_idx = drop_bit 3 key in
              if field_idx = 0 then Inl (ProtoError InvalidFieldIndex0)
              else
                (case ProtoFieldType_of wire_type_val of
                   None \<Rightarrow>
                     (case skipField wire_type_val r1 of
                        Inl e \<Rightarrow> Inl (wrap_unknown_skip e)
                      | Inr r2 \<Rightarrow> parseFields_frames frames r2 group_idx_end fields)
                 | Some field_type \<Rightarrow>
                     if group_idx_end \<noteq> None \<and> field_type = GROUPEND
                        \<and> Some field_idx = group_idx_end
                     then Inr (True, fields, r1)
                     else
                       (case
                          (case field_type of
                             VARINT \<Rightarrow>
                               (case readVarint r1 of Inl e \<Rightarrow> Inl e
                                | Inr (v, r2) \<Rightarrow> Inr (PyInt v, r2))
                           | INT64 \<Rightarrow>
                               (case readInt64 r1 of Inl e \<Rightarrow> Inl e
                                | Inr (v, r2) \<Rightarrow> Inr (PyInt v, r2))
                           | STRING \<Rightarrow>
                               (case readString r1 of Inl e \<Rightarrow> Inl e
                                | Inr (bs, r2) \<Rightarrow> Inr (PyBytes bs, r2))
                           | INT32 \<Rightarrow>
                               (case readInt32 r1 of Inl e \<Rightarrow> Inl e
                                | Inr (v, r2) \<Rightarrow> Inr (PyInt v, r2))
                           | GROUPSTART \<Rightarrow>
                               (case
                                  (case frames of
                                     0 \<Rightarrow> Inl RecursionError
                                   | Suc k \<Rightarrow> parseFields_frames k r1 (Some field_idx) [])
                                of Inl e \<Rightarrow> Inl e
                                | Inr (found_end, nested_pb, r2) \<Rightarrow>
                                    if \<not> found_end then Inl (ProtoError UnterminatedGroup)
                                    else Inr (PyProtoBuf nested_pb, r2))
                           | GROUPEND \<Rightarrow> Inl (ProtoError UnexpectedGroupEnd))
                        of Inl e \<Rightarrow> Inl e
                         | Inr (value, r2) \<Rightarrow>
                             parseFields_frames frames r2 group_idx_end
                               (fields @ [ProtoField field_idx field_type value]))))))"
  by pat_completeness auto



abbreviation nested_frames ::
  "nat \<Rightarrow> ProtoReader \<Rightarrow> int \<Rightarrow> py_error + (bool \<times> ProtoField list \<times> ProtoReader)" where
  "nested_frames frames r1 field_idx \<equiv>
     (case frames of
        0 \<Rightarrow> Inl RecursionError
      | Suc k \<Rightarrow> parseFields_frames k r1 (Some field_idx) [])"

lemma field_value_nongroup_length:
  "ft \<noteq> GROUPSTART \<Longrightarrow> field_value ft r1 nested = Inr (v, r2) \<Longrightarrow> length r2 \<le> length r1"
  by (cases ft)
     (auto split: sum.splits
           dest: readVarint_length readInt64_length readString_length readInt32_length)

lemma parseFields_frames_dom_length:
  "parseFields_frames_dom (frames, reader, g, fields) \<Longrightarrow>
   parseFields_frames frames reader g fields = Inr (b, fs, r) \<Longrightarrow> length r \<le> length reader"
proof (induction frames reader g fields arbitrary: b fs r rule: parseFields_frames.pinduct)
  case (1 frames reader g fields)
  note eq = "1.prems"[unfolded parseFields_frames.psimps[OF "1.hyps"]]
  show ?case
  proof (cases "isRemain reader 1")
    case False
    with eq show ?thesis by simp
  next
    case True
    then have nn: "\<not> \<not> isRemain reader 1" by simp
    from eq True obtain key r1 where rv: "readVarint reader = Inr (key, r1)"
      by (auto split: sum.splits)
    have l1: "length r1 < length reader" by (rule readVarint_length[OF rv])
    from eq True rv have nz: "drop_bit 3 key \<noteq> 0"
      by (auto simp: Let_def split: if_splits)
    show ?thesis
    proof (cases "ProtoFieldType_of (key AND 7)")
      case None
      with eq True rv nz obtain r2 where sk: "skipField (key AND 7) r1 = Inr r2"
        and rec: "parseFields_frames frames r2 g fields = Inr (b, fs, r)"
        by (auto simp: Let_def split: sum.splits)
      from "1.IH"(1)[OF nn rv refl refl refl nz None sk rec] skipField_length[OF sk] l1
      show ?thesis by simp
    next
      case (Some ft)
      show ?thesis
      proof (cases "g \<noteq> None \<and> ft = GROUPEND \<and> Some (drop_bit 3 key) = g")
        case True
        with eq \<open>isRemain reader 1\<close> rv nz Some have "r = r1"
          by (auto simp: Let_def)
        with l1 show ?thesis by simp
      next
        case False
        let ?X = "field_value ft r1 (nested_frames frames r1 (drop_bit 3 key))"
        from False eq \<open>isRemain reader 1\<close> rv nz Some
        have eq': "(case ?X of Inl e \<Rightarrow> Inl e
                    | Inr (v, r2) \<Rightarrow>
                        parseFields_frames frames r2 g (fields @ [ProtoField (drop_bit 3 key) ft v]))
                   = Inr (b, fs, r)"
          by (auto simp: Let_def)
        then obtain v r2 where
          fv: "?X = Inr (v, r2)"
          and rec: "parseFields_frames frames r2 g (fields @ [ProtoField (drop_bit 3 key) ft v])
                    = Inr (b, fs, r)"
          by (cases ?X) auto
        have "length r2 \<le> length r1"
        proof (cases "ft = GROUPSTART")
          case True
          with fv obtain k pb where k: "frames = Suc k"
            and n: "parseFields_frames k r1 (Some (drop_bit 3 key)) [] = Inr (True, pb, r2)"
            by (auto split: sum.splits if_splits nat.splits)
          from "1.IH"(2)[OF nn rv refl refl refl nz Some False True k n] show ?thesis .
        next
          case False
          from field_value_nongroup_length[OF False fv] show ?thesis .
        qed
        moreover from "1.IH"(3)[OF nn rv refl refl refl nz Some False fv refl rec]
        have "length r \<le> length r2" .
        ultimately show ?thesis using l1 by simp
      qed
    qed
  qed
qed

termination parseFields_frames
proof (relation "measure (\<lambda>(frames, reader, g, fields). length reader)", goal_cases)
  case 1
  show ?case by simp
next
  case (2 frames reader g fields b x y xa xb ba)
  then show ?case
    by (auto dest!: readVarint_length skipField_length)
next
  case (3 frames reader g fields b x y xa xb x2 k)
  then show ?case
    by (auto dest!: readVarint_length)
next
  case (4 frames reader g fields b x y xa xb x2 ba xc ya)
  from 4(2,3) have "length y < length reader"
    by (auto dest!: readVarint_length)
  moreover have "length ya \<le> length y"
  proof (cases "x2 = GROUPSTART")
    case True
    from 4(9,10) have fv: "field_value x2 y (nested_frames frames y xb) = Inr (xc, ya)"
      by simp
    with True obtain k pb where k: "frames = Suc k"
      and n: "parseFields_frames k y (Some xb) [] = Inr (True, pb, ya)"
      by (auto split: sum.splits if_splits nat.splits)
    from 4 True k have "parseFields_frames_dom (k, y, Some xb, [])" by simp
    from parseFields_frames_dom_length[OF this n] show ?thesis .
  next
    case False
    from 4(9,10) have fv: "field_value x2 y (nested_frames frames y xb) = Inr (xc, ya)"
      by simp
    from field_value_nongroup_length[OF False fv] show ?thesis .
  qed
  ultimately show ?case by simp
qed

declare parseFields_frames.simps [simp del]

text \<open>
  \<open>ProtoBuf(data)\<close> for a \<open>bytes\<close> argument, on a stack that admits \<open>frames\<close> calls of
  \<open>_parseFields\<close> below the one made by \<open>__init__\<close>.
\<close>

definition ProtoBuf_frames :: "nat \<Rightarrow> byte list \<Rightarrow> py_error + ProtoBuf" where
  "ProtoBuf_frames frames data =
     (if length data > 0 then
        (case parseFields_frames frames data None [] of
           Inl IndexError \<Rightarrow> Inl (ProtoError DataTruncatedNear)
         | Inl (ProtoError m) \<Rightarrow> Inl (ProtoError (ParsingNear m))
         | Inl e \<Rightarrow> Inl (ProtoError UnexpectedError)
         | Inr (found_end, fields, r) \<Rightarrow> Inr fields)
      else Inr [])"

subsection \<open>Accessors\<close>

text \<open>
  A Python \<open>str\<close> is a list of code points. \<open>bytes.decode('utf-8')\<close> is the strict
  UTF-8 decoder (no overlong forms, no surrogates, nothing above U+10FFFF); \<open>None\<close> is
  \<open>UnicodeDecodeError\<close>.
\<close>

type_synonym pystr = "nat list"

definition is_cont :: "byte \<Rightarrow> bool" where
  "is_cont b = (0x80 \<le> unat b \<and> unat b \<le> 0xBF)"

fun utf8_decode :: "byte list \<Rightarrow> pystr option" where
  "utf8_decode [] = Some []"
| "utf8_decode (b0 # bs) =
     (let c0 = unat b0 in
      if c0 < 0x80 then map_option ((#) c0) (utf8_decode bs)
      else if 0xC2 \<le> c0 \<and> c0 \<le> 0xDF then
        (case bs of
           b1 # r \<Rightarrow>
             if is_cont b1
             then map_option ((#) ((c0 - 0xC0) * 0x40 + (unat b1 - 0x80))) (utf8_decode r)
             else None
         | _ \<Rightarrow> None)
      else if 0xE0 \<le> c0 \<and> c0 \<le> 0xEF then
        (case bs of
           b1 # b2 # r \<Rightarrow>
             if is_cont b1 \<and> is_cont b2
                \<and> (if c0 = 0xE0 then 0xA0 \<le> unat b1 else True)
                \<and> (if c0 = 0xED then unat b1 \<le> 0x9F else True)
             then map_option
                    ((#) ((c0 - 0xE0) * 0x1000 + (unat b1 - 0x80) * 0x40 + (unat b2 - 0x80)))
                    (utf8_decode r)
             else None
         | _ \<Rightarrow> None)
      else if 0xF0 \<le> c0 \<and> c0 \<le> 0xF4 then
        (case bs of
           b1 # b2 # b3 # r \<Rightarrow>
             if is_cont b1 \<and> is_cont b2 \<and> is_cont b3
                \<and> (if c0 = 0xF0 then 0x90 \<le> unat b1 else True)
                \<and> (if c0 = 0xF4 then unat b1 \<le> 0x8F else True)
             then map_option
                    ((#) ((c0 - 0xF0) * 0x40000 + (unat b1 - 0x80) * 0x1000
                          + (unat b2 - 0x80) * 0x40 + (unat b3 - 0x80)))
                    (utf8_decode r)
             else None
         | _ \<Rightarrow> None)
      else None)"

text \<open>\<open>str.encode('utf-8')\<close>; \<open>None\<close> is \<open>UnicodeEncodeError\<close> (a lone surrogate).\<close>

definition utf8_encode_char :: "nat \<Rightarrow> byte list option" where
  "utf8_encode_char c =
     (if c < 0x80 then Some [of_nat c]
      else if c < 0x800 then Some [of_nat (0xC0 + c div 0x40), of_nat (0x80 + c mod 0x40)]
      else if c < 0x10000 then
        (if 0xD800 \<le> c \<and> c \<le> 0xDFFF then None
         else Some [of_nat (0xE0 + c div 0x1000), of_nat (0x80 + c div 0x40 mod 0x40),
                    of_nat (0x80 + c mod 0x40)])
      else Some [of_nat (0xF0 + c div 0x40000), of_nat (0x80 + c div 0x1000 mod 0x40),
                 of_nat (0x80 + c div 0x40 mod 0x40), of_nat (0x80 + c mod 0x40)])"

fun utf8_encode :: "pystr \<Rightarrow> byte list option" where
  "utf8_encode [] = Some []"
| "utf8_encode (c # cs) =
     (case utf8_encode_char c of None \<Rightarrow> None
      | Some bs \<Rightarrow> map_option ((@) bs) (utf8_encode cs))"

definition getList :: "ProtoBuf \<Rightarrow> int \<Rightarrow> ProtoField list" where
  "getList fields i = filter (\<lambda>field. idx field = i) fields"

fun get :: "ProtoBuf \<Rightarrow> int \<Rightarrow> ProtoField option" where
  "get [] i = None"
| "get (field # fields) i = (if idx field = i then Some field else get fields i)"

definition getInt :: "ProtoBuf \<Rightarrow> int \<Rightarrow> py_error + pyval" where
  "getInt fields i =
     (case get fields i of
        None \<Rightarrow> Inr (PyInt 0)
      | Some pf \<Rightarrow>
          if ftype pf = INT32 \<or> ftype pf = INT64 \<or> ftype pf = VARINT then Inr (val pf)
          else Inl (ProtoError NotAnIntegerType))"

text \<open>
  For a STRING field whose value is not a \<open>bytes\<close> object, \<open>getBytes\<close> returns
  \<open>str(pf.val).encode('utf-8')\<close>. Python's \<open>str\<close> of an arbitrary object is not part
  of the codec; it is the parameter \<open>str_utf8\<close>.
\<close>

definition getBytes ::
  "(pyval \<Rightarrow> byte list) \<Rightarrow> ProtoBuf \<Rightarrow> int \<Rightarrow> py_error + byte list option" where
  "getBytes str_utf8 fields i =
     (case get fields i of
        None \<Rightarrow> Inr None
      | Some pf \<Rightarrow>
          if ftype pf = STRING then
            (case val pf of PyBytes bs \<Rightarrow> Inr (Some bs) | v \<Rightarrow> Inr (Some (str_utf8 v)))
          else
            (case (ftype pf, val pf) of
               (GROUPSTART, PyProtoBuf pb) \<Rightarrow>
                 (case toBuf pb of Inl e \<Rightarrow> Inl e | Inr bs \<Rightarrow> Inr (Some bs))
             | _ \<Rightarrow> Inl (ProtoError NotABytesType)))"

definition getUtf8 ::
  "(pyval \<Rightarrow> byte list) \<Rightarrow> ProtoBuf \<Rightarrow> int \<Rightarrow> py_error + pystr option" where
  "getUtf8 str_utf8 fields i =
     (case getBytes str_utf8 fields i of
        Inl e \<Rightarrow> Inl e
      | Inr None \<Rightarrow> Inr None
      | Inr (Some bs) \<Rightarrow>
          (case utf8_decode bs of
             None \<Rightarrow> Inl (ProtoError NonUtf8Bytes)
           | Some s \<Rightarrow> Inr (Some s)))"

definition getProtoBuf :: "ProtoBuf \<Rightarrow> int \<Rightarrow> py_error + ProtoBuf option" where
  "getProtoBuf fields i =
     (case get fields i of
        None \<Rightarrow> Inr None
      | Some pf \<Rightarrow>
          if ftype pf = STRING then
            (case val pf of
               PyBytes bs \<Rightarrow>
                 (case ProtoBuf_bytes bs of
                    Inl (ProtoError m) \<Rightarrow> Inl (ProtoError (FailedToParseField m))
                  | Inl e \<Rightarrow> Inl e
                  | Inr pb \<Rightarrow> Inr (Some pb))
             | _ \<Rightarrow> Inl (ProtoError (FailedToParseField UnsupportedInitType)))
          else
            (case (ftype pf, val pf) of
               (GROUPSTART, PyProtoBuf pb) \<Rightarrow> Inr (Some pb)
             | _ \<Rightarrow> Inl (ProtoError NotAProtoBufType)))"

subsection \<open>Mutators\<close>

definition put :: "ProtoField \<Rightarrow> ProtoBuf \<Rightarrow> ProtoBuf" where
  "put field fields = fields @ [field]"

definition putInt32 :: "int \<Rightarrow> int \<Rightarrow> ProtoBuf \<Rightarrow> ProtoBuf" where
  "putInt32 i int32 fields = put (ProtoField i INT32 (PyInt int32)) fields"

definition putInt64 :: "int \<Rightarrow> int \<Rightarrow> ProtoBuf \<Rightarrow> ProtoBuf" where
  "putInt64 i int64 fields = put (ProtoField i INT64 (PyInt int64)) fields"

definition putVarint :: "int \<Rightarrow> int \<Rightarrow> ProtoBuf \<Rightarrow> ProtoBuf" where
  "putVarint i vint fields = put (ProtoField i VARINT (PyInt vint)) fields"

definition putBytes :: "int \<Rightarrow> byte list \<Rightarrow> ProtoBuf \<Rightarrow> ProtoBuf" where
  "putBytes i data fields = put (ProtoField i STRING (PyBytes data)) fields"

definition putUtf8 :: "int \<Rightarrow> pystr \<Rightarrow> ProtoBuf \<Rightarrow> py_error + ProtoBuf" where
  "putUtf8 i data fields =
     (case utf8_encode data of
        None \<Rightarrow> Inl UnicodeEncodeError
      | Some bs \<Rightarrow> Inr (put (ProtoField i STRING (PyBytes bs)) fields))"

definition putProtoBuf :: "int \<Rightarrow> ProtoBuf \<Rightarrow> ProtoBuf \<Rightarrow> py_error + ProtoBuf" where
  "putProtoBuf i data fields =
     (case toBuf data of
        Inl e \<Rightarrow> Inl e
      | Inr bs \<Rightarrow> Inr (put (ProtoField i STRING (PyBytes bs)) fields))"

definition putGroup :: "int \<Rightarrow> ProtoBuf \<Rightarrow> ProtoBuf \<Rightarrow> ProtoBuf" where
  "putGroup i group_pb fields = put (ProtoField i GROUPSTART (PyProtoBuf group_pb)) fields"

subsection \<open>Well-formed trees\<close>

text \<open>
  The fields that the parser can produce: a positive field number whose tag fits the
  reader's varint limit (11 bytes, 77 bits), a value of the Python type and range that
  belongs to the wire type, no stored GROUPEND, and a group's value a tree of such fields.
\<close>

fun wf_field :: "ProtoField \<Rightarrow> bool" where
  "wf_field (ProtoField i t v) =
     (0 < i \<and> i < 2 ^ 74 \<and>
      (case t of
         VARINT \<Rightarrow> (case v of PyInt n \<Rightarrow> 0 \<le> n \<and> n < 2 ^ 77 | _ \<Rightarrow> False)
       | INT64 \<Rightarrow> (case v of PyInt n \<Rightarrow> 0 \<le> n \<and> n < 2 ^ 64 | _ \<Rightarrow> False)
       | STRING \<Rightarrow> (case v of PyBytes bs \<Rightarrow> int (length bs) < 2 ^ 77 | _ \<Rightarrow> False)
       | GROUPSTART \<Rightarrow> (case v of PyProtoBuf pb \<Rightarrow> list_all wf_field pb | _ \<Rightarrow> False)
       | GROUPEND \<Rightarrow> False
       | INT32 \<Rightarrow> (case v of PyInt n \<Rightarrow> 0 \<le> n \<and> n < 2 ^ 32 | _ \<Rightarrow> False)))"

subsection \<open>Auxiliary notions for the proofs\<close>

definition varint_byte :: "int \<Rightarrow> int" where
  "varint_byte v = (if 0 < drop_bit 7 v then (v AND 0x7F) OR 0x80 else v AND 0x7F)"

definition tag :: "int \<Rightarrow> ProtoFieldType \<Rightarrow> int" where
  "tag i t = push_bit 3 i OR (type_value t AND 7)"

definition varint_bytes :: "int \<Rightarrow> byte list" where
  "varint_bytes v = writeVarint v []"

definition field_out :: "ProtoField \<Rightarrow> py_error + byte list" where
  "field_out f = toBuf_loop [f] []"

definition field_roundtrip :: "ProtoField \<Rightarrow> bool" where
  "field_roundtrip f \<longleftrightarrow>
     (\<exists>X. field_out f = Inr X \<and>
        (\<forall>rest g acc. parseFields (X @ rest) g acc = parseFields rest g (acc @ [f])))"

definition fields_roundtrip :: "ProtoField list \<Rightarrow> bool" where
  "fields_roundtrip fs \<longleftrightarrow>
     (\<exists>bs. toBuf fs = Inr bs \<and>
        (\<forall>rest g acc. parseFields (bs @ rest) g acc = parseFields rest g (acc @ fs)))"

subsection \<open>Notions used to state the claims\<close>


text \<open>A tree built by a sequence of scalar put calls on an empty \<open>ProtoBuf\<close>.\<close>

datatype put_op =
    PutVarint int int
  | PutInt32 int int
  | PutInt64 int int
  | PutBytes int "byte list"
  | PutUtf8 int pystr

fun apply_put :: "put_op \<Rightarrow> ProtoBuf \<Rightarrow> py_error + ProtoBuf" where
  "apply_put (PutVarint i v) fields = Inr (putVarint i v fields)"
| "apply_put (PutInt32 i v) fields = Inr (putInt32 i v fields)"
| "apply_put (PutInt64 i v) fields = Inr (putInt64 i v fields)"
| "apply_put (PutBytes i bs) fields = Inr (putBytes i bs fields)"
| "apply_put (PutUtf8 i s) fields = putUtf8 i s fields"

fun apply_puts :: "put_op list \<Rightarrow> ProtoBuf \<Rightarrow> py_error + ProtoBuf" where
  "apply_puts [] fields = Inr fields"
| "apply_puts (p # ps) fields =
     (case apply_put p fields of Inl e \<Rightarrow> Inl e | Inr fields' \<Rightarrow> apply_puts ps fields')"

text \<open>
  The field number of a put, and whether its value is in range: an unsigned 64-bit
  varint, an unsigned 32- or 64-bit fixed value, a payload whose length fits the
  reader's varint limit.
\<close>

fun put_idx :: "put_op \<Rightarrow> int" where
  "put_idx (PutVarint i v) = i"
| "put_idx (PutInt32 i v) = i"
| "put_idx (PutInt64 i v) = i"
| "put_idx (PutBytes i bs) = i"
| "put_idx (PutUtf8 i s) = i"

fun value_in_range :: "put_op \<Rightarrow> bool" where
  "value_in_range (PutVarint i v) = (0 \<le> v \<and> v < 2 ^ 64)"
| "value_in_range (PutInt32 i v) = (0 \<le> v \<and> v < 2 ^ 32)"
| "value_in_range (PutInt64 i v) = (0 \<le> v \<and> v < 2 ^ 64)"
| "value_in_range (PutBytes i bs) = (int (length bs) < 2 ^ 77)"
| "value_in_range (PutUtf8 i s) =
     (case utf8_encode s of None \<Rightarrow> False | Some bs \<Rightarrow> int (length bs) < 2 ^ 77)"





text \<open>
  The integer that a sequence of 7-bit groups stands for, the least significant group
  first; the top bit of every byte is left out.
\<close>

fun varint_value :: "byte list \<Rightarrow> int" where
  "varint_value [] = 0"
| "varint_value (b # bs) = (uint b AND 0x7F) OR push_bit 7 (varint_value bs)"










subsection \<open>Dictionaries\<close>

text \<open>
  The values that occur in the dictionaries the codec imports and exports. A \<open>dict\<close>
  keeps its insertion order: it is an association list (with distinct keys, as in
  Python). Keys are integers; \<open>DGroupError\<close> is the one dictionary with a string key
  that the codec builds, \<open>{"__error__": ...}\<close>; \<open>DOther\<close> is a value of any other type.
\<close>

datatype pyobj =
    DInt int
  | DStr pystr
  | DBytes "byte list"
  | DList "pyobj list"
  | DDict "(int \<times> pyobj) list"
  | DProtoBuf ProtoBuf
  | DGroupError
  | DOther

function parseDict :: "(int \<times> pyobj) list \<Rightarrow> ProtoBuf \<Rightarrow> py_error + ProtoBuf"
  and parseDict_items :: "int \<Rightarrow> pyobj list \<Rightarrow> ProtoBuf \<Rightarrow> py_error + ProtoBuf" where
  "parseDict [] fields = Inr fields"
| "parseDict ((k, v) # data) fields =
     (if k \<le> 0 then Inl (ProtoError InvalidDictKey)
      else
        (case parseDict_items k (case v of DList items \<Rightarrow> items | _ \<Rightarrow> [v]) fields of
           Inl e \<Rightarrow> Inl e
         | Inr fields' \<Rightarrow> parseDict data fields'))"
| "parseDict_items k [] fields = Inr fields"
| "parseDict_items k (item # items) fields =
     (case item of
        DInt n \<Rightarrow> parseDict_items k items (putVarint k n fields)
      | DStr s \<Rightarrow>
          (case putUtf8 k s fields of Inl e \<Rightarrow> Inl e
           | Inr fields' \<Rightarrow> parseDict_items k items fields')
      | DBytes bs \<Rightarrow> parseDict_items k items (putBytes k bs fields)
      | DDict d \<Rightarrow>
          (case (if length d > 0 then parseDict d [] else Inr []) of
             Inl e \<Rightarrow> Inl e
           | Inr pb \<Rightarrow>
               (case putProtoBuf k pb fields of Inl e \<Rightarrow> Inl e
                | Inr fields' \<Rightarrow> parseDict_items k items fields'))
      | DGroupError \<Rightarrow> Inl (ProtoError InvalidDictKey)
      | DProtoBuf pb \<Rightarrow>
          (case putProtoBuf k pb fields of Inl e \<Rightarrow> Inl e
           | Inr fields' \<Rightarrow> parseDict_items k items fields')
      | _ \<Rightarrow> Inl (ProtoError UnsupportedValueType))"
  by pat_completeness auto
termination parseDict
  by (relation "measure (case_sum
        (\<lambda>(data, fields). size_list (size_prod (\<lambda>k. 0) size) data)
        (\<lambda>(k, items, fields). size_list size items))")
     (auto split: pyobj.splits)

definition ProtoBuf_dict :: "(int \<times> pyobj) list \<Rightarrow> py_error + ProtoBuf" where
  "ProtoBuf_dict data = (if length data > 0 then parseDict data [] else Inr [])"

text \<open>
  \<open>c.isprintable() or c.isspace()\<close>: for ASCII, the printable characters \<open>0x20\<close> to
  \<open>0x7E\<close> and the whitespace characters \<open>0x09\<close> to \<open>0x0D\<close> and \<open>0x1C\<close> to \<open>0x1F\<close>; beyond
  ASCII it is a table of the Unicode database, the parameter \<open>uni\<close>.
\<close>

definition printable_or_space :: "(nat \<Rightarrow> bool) \<Rightarrow> nat \<Rightarrow> bool" where
  "printable_or_space uni c =
     (if c < 0x80 then (0x20 \<le> c \<and> c \<le> 0x7E) \<or> (0x09 \<le> c \<and> c \<le> 0x0D) \<or> (0x1C \<le> c \<and> c \<le> 0x1F)
      else uni c)"

fun pyobj_of_val :: "pyval \<Rightarrow> pyobj" where
  "pyobj_of_val (PyInt n) = DInt n"
| "pyobj_of_val (PyBytes bs) = DBytes bs"
| "pyobj_of_val (PyProtoBuf pb) = DProtoBuf pb"

text \<open>\<open>intermediate[key].append(value)\<close>, with a new key added at the end.\<close>

fun intermediate_append ::
  "int \<Rightarrow> pyobj \<Rightarrow> (int \<times> pyobj list) list \<Rightarrow> (int \<times> pyobj list) list" where
  "intermediate_append key v [] = [(key, [v])]"
| "intermediate_append key v ((k, vs) # rest) =
     (if k = key then (k, vs @ [v]) # rest else (k, vs) # intermediate_append key v rest)"

definition collapse :: "(int \<times> pyobj list) list \<Rightarrow> (int \<times> pyobj) list" where
  "collapse intermediate =
     map (\<lambda>(key, values). (key, if length values = 1 then hd values else DList values))
       intermediate"

text \<open>
  The measure of the recursion of \<open>toDictAuto\<close>: a field weighs one more than its
  payload, and a parsed tree weighs no more than the bytes it was parsed from.
\<close>

fun field_weight :: "ProtoField \<Rightarrow> nat" where
  "field_weight (ProtoField i t v) =
     Suc (case v of PyInt n \<Rightarrow> 0 | PyBytes bs \<Rightarrow> length bs
          | PyProtoBuf pb \<Rightarrow> sum_list (map field_weight pb))"

definition weight :: "ProtoBuf \<Rightarrow> nat" where
  "weight fields = sum_list (map field_weight fields)"


lemma weight_Nil: "weight [] = 0"
  by (simp add: weight_def)

lemma weight_append: "weight (xs @ ys) = weight xs + weight ys"
  by (simp add: weight_def)

lemma readString_weight:
  "readString reader = Inr (bs, r) \<Longrightarrow> length bs + length r \<le> length reader"
  by (auto simp: readString_def read_def isRemain_def split: sum.splits if_splits
      dest!: readVarint_length)

lemma field_value_weight:
  assumes fv: "field_value ft r1 nested = Inr (v, r2)"
    and nested: "\<And>b fs r. ft = GROUPSTART \<Longrightarrow> nested = Inr (b, fs, r) \<Longrightarrow>
                   weight fs + length r \<le> length r1"
  shows "field_weight (ProtoField i ft v) + length r2 \<le> Suc (length r1)"
proof (cases ft)
  case VARINT
  with fv show ?thesis
    by (auto split: sum.splits dest: readVarint_length)
next
  case INT64
  with fv show ?thesis
    by (auto split: sum.splits dest: readInt64_length)
next
  case STRING
  with fv show ?thesis
    by (auto split: sum.splits dest: readString_weight)
next
  case GROUPSTART
  with fv nested show ?thesis
    by (auto simp: weight_def split: sum.splits if_splits)
next
  case GROUPEND
  with fv show ?thesis by simp
next
  case INT32
  with fv show ?thesis
    by (auto split: sum.splits dest: readInt32_length)
qed

lemma parseFields_weight:
  "parseFields reader g fields = Inr (b, fs, r) \<Longrightarrow>
   weight fs + length r \<le> weight fields + length reader"
proof (induction reader g fields arbitrary: b fs r rule: parseFields.induct)
  case (1 reader g fields)
  note eq = "1.prems"(1)[unfolded parseFields.simps[of reader g fields]]
  show ?case
  proof (cases "isRemain reader 1")
    case False
    with eq show ?thesis by simp
  next
    case True
    then have nn: "\<not> \<not> isRemain reader 1" by simp
    from eq True obtain key r1 where rv: "readVarint reader = Inr (key, r1)"
      by (auto split: sum.splits)
    from eq True rv have nz: "drop_bit 3 key \<noteq> 0"
      by (auto simp: Let_def split: if_splits)
    have l1: "length r1 < length reader" by (rule readVarint_length[OF rv])
    show ?thesis
    proof (cases "ProtoFieldType_of (key AND 7)")
      case None
      with eq True rv nz obtain r2 where sk: "skipField (key AND 7) r1 = Inr r2"
        and rec: "parseFields r2 g fields = Inr (b, fs, r)"
        by (auto simp: Let_def split: sum.splits)
      from "1.IH"(1)[OF nn rv refl refl refl nz None sk rec] skipField_length[OF sk] l1
      show ?thesis by simp
    next
      case (Some ft)
      show ?thesis
      proof (cases "g \<noteq> None \<and> ft = GROUPEND \<and> Some (drop_bit 3 key) = g")
        case True
        with eq \<open>isRemain reader 1\<close> rv nz Some have "fs = fields" "r = r1"
          by (auto simp: Let_def)
        with l1 show ?thesis by simp
      next
        case False
        let ?X = "field_value ft r1 (parseFields r1 (Some (drop_bit 3 key)) [])"
        from False eq \<open>isRemain reader 1\<close> rv nz Some
        have eq': "(case ?X of Inl e \<Rightarrow> Inl e
                    | Inr (v, r2) \<Rightarrow> parseFields r2 g (fields @ [ProtoField (drop_bit 3 key) ft v]))
                   = Inr (b, fs, r)"
          by (auto simp: Let_def)
        then obtain v r2 where
          fv: "?X = Inr (v, r2)"
          and rec: "parseFields r2 g (fields @ [ProtoField (drop_bit 3 key) ft v]) = Inr (b, fs, r)"
          by (cases ?X) auto
        have "field_weight (ProtoField (drop_bit 3 key) ft v) + length r2 \<le> Suc (length r1)"
        proof (rule field_value_weight[OF fv])
          fix b' fs' r'
          assume gs: "ft = GROUPSTART"
            and n: "parseFields r1 (Some (drop_bit 3 key)) [] = Inr (b', fs', r')"
          from "1.IH"(2)[OF nn rv refl refl refl nz Some False gs n]
          show "weight fs' + length r' \<le> length r1"
            by (simp add: weight_Nil)
        qed
        moreover from "1.IH"(3)[OF nn rv refl refl refl nz Some False fv refl rec]
        have "weight fs + length r
              \<le> weight fields + field_weight (ProtoField (drop_bit 3 key) ft v) + length r2"
          by (simp add: weight_append weight_def)
        ultimately show ?thesis using l1 by simp
      qed
    qed
  qed
qed

lemma ProtoBuf_bytes_weight: "ProtoBuf_bytes data = Inr fs \<Longrightarrow> weight fs \<le> length data"
  by (auto simp: ProtoBuf_bytes_def weight_Nil split: if_splits sum.splits py_error.splits
      dest: parseFields_weight)

lemma field_weight_pos: "0 < field_weight field"
  by (cases field) simp

lemma weight_val_PyBytes: "val field = PyBytes bs \<Longrightarrow> length bs < field_weight field"
  by (cases field) simp

lemma weight_val_PyProtoBuf: "val field = PyProtoBuf pb \<Longrightarrow> weight pb < field_weight field"
  by (cases field) (simp add: weight_def)

function toDictAuto_loop ::
  "(nat \<Rightarrow> bool) \<Rightarrow> ProtoField list \<Rightarrow> (int \<times> pyobj list) list \<Rightarrow>
     py_error + (int \<times> pyobj list) list" where
  "toDictAuto_loop uni [] intermediate = Inr intermediate"
| "toDictAuto_loop uni (field # rest) intermediate =
     (case
        (if ftype field = VARINT \<or> ftype field = INT64 \<or> ftype field = INT32
         then Inr (Some (pyobj_of_val (val field)))
         else if ftype field = STRING then
           (case val field of
              PyBytes bs \<Rightarrow>
                (case utf8_decode bs of
                   Some decoded_str \<Rightarrow>
                     if list_all (printable_or_space uni) decoded_str
                     then Inr (Some (DStr decoded_str))
                     else
                       (case ProtoBuf_bytes bs of
                          Inr nested_pb \<Rightarrow>
                            if nested_pb \<noteq> [] then
                              (case toDictAuto_loop uni nested_pb [] of Inl e \<Rightarrow> Inl e
                               | Inr i \<Rightarrow> Inr (Some (DDict (collapse i))))
                            else Inr (Some (DBytes bs))
                        | Inl (ProtoError m) \<Rightarrow> Inr (Some (DBytes bs))
                        | Inl e \<Rightarrow> Inl e)
                 | None \<Rightarrow>
                     (case ProtoBuf_bytes bs of
                        Inr nested_pb \<Rightarrow>
                          if nested_pb \<noteq> [] then
                            (case toDictAuto_loop uni nested_pb [] of Inl e \<Rightarrow> Inl e
                             | Inr i \<Rightarrow> Inr (Some (DDict (collapse i))))
                          else Inr (Some (DBytes bs))
                      | Inl (ProtoError m) \<Rightarrow> Inr (Some (DBytes bs))
                      | Inl e \<Rightarrow> Inl e))
            | _ \<Rightarrow> Inl AttributeError)
         else if ftype field = GROUPSTART then
           (case val field of
              PyProtoBuf pb \<Rightarrow>
                (case toDictAuto_loop uni pb [] of Inl e \<Rightarrow> Inl e
                 | Inr i \<Rightarrow> Inr (Some (DDict (collapse i))))
            | _ \<Rightarrow> Inr (Some DGroupError))
         else Inr None)
      of Inl e \<Rightarrow> Inl e
       | Inr None \<Rightarrow> toDictAuto_loop uni rest intermediate
       | Inr (Some v) \<Rightarrow>
           toDictAuto_loop uni rest (intermediate_append (idx field) v intermediate))"
  by pat_completeness auto
termination toDictAuto_loop
  by (relation "measure (\<lambda>(uni, fields, intermediate). weight fields)")
     (auto simp: weight_def field_weight_pos
           dest!: ProtoBuf_bytes_weight weight_val_PyBytes weight_val_PyProtoBuf)

declare toDictAuto_loop.simps(2) [simp del]

definition toDictAuto :: "(nat \<Rightarrow> bool) \<Rightarrow> ProtoBuf \<Rightarrow> py_error + (int \<times> pyobj) list" where
  "toDictAuto uni fields =
     (case toDictAuto_loop uni fields [] of Inl e \<Rightarrow> Inl e
      | Inr intermediate \<Rightarrow> Inr (collapse intermediate))"

section \<open>Properties\<close>

subsection \<open>Varints\<close>

lemma and_127_take_bit: "(v::int) AND 127 = take_bit 7 v"
  by (simp add: take_bit_eq_mask mask_numeral)

lemma and_255_take_bit: "(v::int) AND 255 = take_bit 8 v"
  by (simp add: take_bit_eq_mask mask_numeral)

lemma take_or_push_drop: "take_bit 7 (v::int) OR push_bit 7 (drop_bit 7 v) = v"
  by (metis add.commute bits_ident concat_bit_def concat_bit_eq)

lemma cont_byte_plus: "take_bit 7 (v::int) OR 128 = take_bit 7 v + 128"
  using concat_bit_eq[of 7 v 1] by (simp add: concat_bit_def)

lemma low_byte_lt: "take_bit 7 (v::int) < 128"
  by (simp add: take_bit_eq_mod)

lemma low_byte_ge: "0 \<le> take_bit 7 (v::int)"
  by simp

lemma uint_byte_of_int: "0 \<le> y \<Longrightarrow> y < 256 \<Longrightarrow> uint (word_of_int (y AND 255) :: byte) = y"
  by (simp add: uint_word_of_int and_255_take_bit take_bit_eq_mod)

lemma cont_byte_and: "(take_bit 7 (v::int) + 128) AND 127 = take_bit 7 v"
  using low_byte_lt[of v] low_byte_ge[of v]
  by (simp add: and_127_take_bit take_bit_eq_mod)

lemma writeVarint_loop_step:
  "0 < v \<Longrightarrow> writeVarint_loop v w = writeVarint_loop (drop_bit 7 v) (write0 (varint_byte v) w)"
  by (subst writeVarint_loop.simps) (simp add: Let_def varint_byte_def)

lemma writeVarint_loop_stop: "\<not> 0 < v \<Longrightarrow> writeVarint_loop v w = w"
  by (subst writeVarint_loop.simps) simp

lemma writeVarint_loop_append: "writeVarint_loop v w = w @ writeVarint_loop v []"
proof (induction "nat v" arbitrary: v w rule: less_induct)
  case less
  show ?case
  proof (cases "0 < v")
    case True
    then have lt: "nat (drop_bit 7 v) < nat v"
      by (simp add: drop_bit_eq_div)
    show ?thesis
      using less[OF lt, of "write0 (varint_byte v) w"] less[OF lt, of "write0 (varint_byte v) []"]
      by (simp add: writeVarint_loop_step[OF True] write0_def)
  next
    case False
    then show ?thesis by (simp add: writeVarint_loop_stop)
  qed
qed

lemma writeVarint_append: "writeVarint v w = w @ writeVarint v []"
  using writeVarint_loop_append[of v w] by (simp add: writeVarint_def write0_def)

lemma uint_varint_byte:
  "uint (word_of_int (varint_byte v AND 0xFF) :: byte) = varint_byte v"
  using low_byte_lt[of v] low_byte_ge[of v]
  by (intro uint_byte_of_int) (auto simp: varint_byte_def and_127_take_bit cont_byte_plus)

lemma readVarint_loop_cont:
  assumes "uint b = x + 128" "0 \<le> x" "x < 128" "n < 10"
  shows "readVarint_loop (b # r) vint n = readVarint_loop r (vint OR push_bit (7 * n) x) (Suc n)"
proof -
  have "(x + 128) AND 127 = x"
    using assms(2,3) by (simp add: and_127_take_bit take_bit_eq_mod)
  then show ?thesis
    using assms by (simp add: readVarint_loop_Cons)
qed

lemma readVarint_loop_last:
  assumes "uint b = x" "0 \<le> x" "x < 128"
  shows "readVarint_loop (b # r) vint n = Inr (vint OR push_bit (7 * n) x, r)"
proof -
  have "x AND 127 = x"
    using assms(2,3) by (simp add: and_127_take_bit take_bit_eq_mod)
  then show ?thesis
    using assms by (simp add: readVarint_loop_Cons)
qed

lemma readVarint_loop_write:
  "0 < v \<Longrightarrow> v < 2 ^ (7 * k) \<Longrightarrow> n + k \<le> 11 \<Longrightarrow>
   readVarint_loop (writeVarint_loop v [] @ rest) vint n = Inr (vint OR push_bit (7 * n) v, rest)"
proof (induction k arbitrary: v vint n)
  case 0
  then show ?case by simp
next
  case (Suc k)
  have step: "writeVarint_loop v [] @ rest =
      word_of_int (varint_byte v AND 0xFF) # (writeVarint_loop (drop_bit 7 v) [] @ rest)"
    using writeVarint_loop_append[of "drop_bit 7 v" "write0 (varint_byte v) []"]
    by (simp add: writeVarint_loop_step[OF Suc.prems(1)] write0_def)
  show ?case
  proof (cases "0 < drop_bit 7 v")
    case True
    have b: "uint (word_of_int (varint_byte v AND 0xFF) :: byte) = take_bit 7 v + 128"
      using True by (simp only: uint_varint_byte) (simp add: varint_byte_def and_127_take_bit cont_byte_plus)
    have "v < 128 * 2 ^ (7 * k)"
      using Suc.prems(2) by (simp add: power_add)
    then have "v div 128 < 2 ^ (7 * k)"
      by linarith
    then have small: "drop_bit 7 v < 2 ^ (7 * k)"
      by (simp add: drop_bit_eq_div)
    have kpos: "0 < k"
      using True small by (cases k) auto
    have n: "n < 10" "Suc n + k \<le> 11"
      using Suc.prems(3) kpos by auto
    have "(vint OR push_bit (7 * n) (take_bit 7 v)) OR push_bit (7 * Suc n) (drop_bit 7 v)
          = vint OR push_bit (7 * n) (take_bit 7 v OR push_bit 7 (drop_bit 7 v))"
      by (simp add: or.assoc add.commute)
    then have comb: "(vint OR push_bit (7 * n) (take_bit 7 v)) OR push_bit (7 * Suc n) (drop_bit 7 v)
          = vint OR push_bit (7 * n) v"
      by (simp only: take_or_push_drop)
    have "readVarint_loop (writeVarint_loop v [] @ rest) vint n =
          readVarint_loop (writeVarint_loop (drop_bit 7 v) [] @ rest)
            (vint OR push_bit (7 * n) (take_bit 7 v)) (Suc n)"
      unfolding step
      by (rule readVarint_loop_cont[OF b low_byte_ge low_byte_lt n(1)])
    also have "\<dots> = Inr ((vint OR push_bit (7 * n) (take_bit 7 v)) OR push_bit (7 * Suc n) (drop_bit 7 v), rest)"
      by (rule Suc.IH[OF True small n(2)])
    finally show ?thesis
      by (simp only: comb)
  next
    case False
    then have z: "drop_bit 7 v = 0"
      using Suc.prems(1) by (simp add: drop_bit_eq_div)
    then have v: "take_bit 7 v = v"
      using take_or_push_drop[of v] by simp
    have b: "uint (word_of_int (varint_byte v AND 0xFF) :: byte) = v"
      using False v by (simp only: uint_varint_byte) (simp add: varint_byte_def and_127_take_bit)
    have lt: "v < 128" using v low_byte_lt[of v] by simp
    have ge: "0 \<le> v" using Suc.prems(1) by simp
    show ?thesis
      unfolding step z
      by (simp add: readVarint_loop_last[OF b ge lt] writeVarint_loop_stop)
  qed
qed

lemma readVarint_writeVarint:
  "0 \<le> v \<Longrightarrow> v < 2 ^ 77 \<Longrightarrow> readVarint (writeVarint v [] @ rest) = Inr (v, rest)"
proof (cases "v = 0")
  case True
  then show ?thesis
    by (simp add: readVarint_def writeVarint_def write0_def readVarint_loop_Cons)
next
  case False
  assume "0 \<le> v" "v < 2 ^ 77"
  with False show ?thesis
    using readVarint_loop_write[of v 11 0 rest 0]
    by (simp add: readVarint_def writeVarint_def)
qed


lemma bitlen_div_pow2: "0 < x div 2 ^ k \<Longrightarrow> bitlen x = bitlen (x div 2 ^ k) + int k"
proof (induction k)
  case 0
  then show ?case by simp
next
  case (Suc k)
  have "x div (2 ^ k * 2) = x div 2 ^ k div 2"
    by (rule zdiv_zmult2_eq) simp
  then have eq: "x div 2 ^ Suc k = x div 2 ^ k div 2"
    by (simp only: power_Suc mult.commute[of 2 "2 ^ k"])
  with Suc.prems have "0 < x div 2 ^ k div 2"
    by simp
  then have pos: "0 < x div 2 ^ k"
    by linarith
  have "bitlen (x div 2 ^ k) = bitlen (x div 2 ^ k div 2) + 1"
    using pos by (subst compute_bitlen) simp
  then show ?case
    using Suc.IH[OF pos] eq by simp
qed

lemma length_writeVarint_loop:
  "0 < v \<Longrightarrow> int (length (writeVarint_loop v [])) = (bitlen v + 6) div 7"
proof (induction "nat v" arbitrary: v rule: less_induct)
  case less
  have step: "writeVarint_loop v [] =
      word_of_int (varint_byte v AND 0xFF) # writeVarint_loop (drop_bit 7 v) []"
    using writeVarint_loop_append[of "drop_bit 7 v" "write0 (varint_byte v) []"]
    by (simp add: writeVarint_loop_step[OF less.prems] write0_def)
  show ?case
  proof (cases "0 < drop_bit 7 v")
    case True
    then have pos: "0 < v div 2 ^ 7"
      by (simp add: drop_bit_eq_div)
    have lt: "nat (drop_bit 7 v) < nat v"
      using less.prems by (simp add: drop_bit_eq_div)
    have "bitlen v = bitlen (drop_bit 7 v) + 7"
      using bitlen_div_pow2[OF pos] by (simp add: drop_bit_eq_div)
    then show ?thesis
      using less.hyps[OF lt True] by (simp add: step)
  next
    case False
    then have small: "v < 2 ^ 7"
      using less.prems by (simp add: drop_bit_eq_div)
    then have "bitlen v \<le> 7"
      by (simp add: bitlen_le_iff_power)
    moreover have "1 \<le> bitlen v"
      using less.prems bitlen_eq_zero_iff[of v] bitlen_nonneg[of v] by linarith
    ultimately have "(bitlen v + 6) div 7 = 1"
      by linarith
    then show ?thesis
      using False by (simp add: step writeVarint_loop_stop)
  qed
qed

lemma ceiling_div7: "\<lceil>real_of_int b / 7\<rceil> = (b + 6) div 7"
  by linarith

lemma readVarint_loop_too_long:
  "\<forall>c \<in> set cs. 0x80 \<le> uint c \<Longrightarrow> n + length cs = 11 \<Longrightarrow> cs \<noteq> [] \<Longrightarrow>
   readVarint_loop (cs @ rest) vint n = Inl (ProtoError VarintTooLong)"
proof (induction cs arbitrary: n vint)
  case Nil
  then show ?case by simp
next
  case (Cons c cs)
  show ?case
  proof (cases "10 \<le> n")
    case True
    with Cons.prems show ?thesis
      by (simp add: readVarint_loop_Cons)
  next
    case False
    with Cons.prems have "cs \<noteq> []" "Suc n + length cs = 11"
      by auto
    with Cons.IH[of "Suc n"] Cons.prems(1) False show ?thesis
      by (simp add: readVarint_loop_Cons)
  qed
qed

lemma readVarint_loop_value:
  "list_all (\<lambda>c. 0x80 \<le> uint c) cs \<Longrightarrow> uint b < 0x80 \<Longrightarrow> n + length cs \<le> 10 \<Longrightarrow>
   readVarint_loop (cs @ b # rest) vint n
     = Inr (vint OR push_bit (7 * n) (varint_value (cs @ [b])), rest)"
proof (induction cs arbitrary: n vint)
  case Nil
  then show ?case by (simp add: readVarint_loop_Cons)
next
  case (Cons c cs)
  from Cons.prems have c: "\<not> uint c < 0x80" "\<not> 10 \<le> n" "list_all (\<lambda>c. 0x80 \<le> uint c) cs"
    "Suc n + length cs \<le> 10"
    by auto
  have "push_bit (7 * n) (varint_value ((c # cs) @ [b]))
        = push_bit (7 * n) (uint c AND 0x7F) OR push_bit (7 * Suc n) (varint_value (cs @ [b]))"
    by (simp add: push_bit_or push_bit_push_bit add.commute)
  with Cons.IH[OF c(3) Cons.prems(2) c(4), of "vint OR push_bit (7 * n) (uint c AND 0x7F)"] c
  show ?case
    by (simp add: readVarint_loop_Cons or.assoc)
qed

lemma key_plus:
  assumes "0 \<le> t" "t < 8"
  shows "push_bit 3 (i::int) OR t = 8 * i + t"
proof -
  have t: "take_bit 3 t = t"
    using assms by (simp add: take_bit_eq_mod)
  have "take_bit 3 t OR push_bit 3 i = take_bit 3 t + push_bit 3 i"
    using concat_bit_eq[of 3 t i] by (simp add: concat_bit_def)
  then show ?thesis
    by (simp add: t or.commute push_bit_eq_mult)
qed

lemma and_7_take_bit: "(v::int) AND 7 = take_bit 3 v"
  by (simp add: take_bit_eq_mask mask_numeral)

lemma key_and_7:
  assumes "0 \<le> t" "t < 8"
  shows "(push_bit 3 (i::int) OR t) AND 7 = t"
  unfolding key_plus[OF assms] using assms by (simp add: and_7_take_bit take_bit_eq_mod)

lemma key_drop_3:
  assumes "0 \<le> t" "t < 8"
  shows "drop_bit 3 (push_bit 3 (i::int) OR t) = i"
  unfolding key_plus[OF assms] using assms by (simp add: drop_bit_eq_div)

lemma type_value_range: "0 \<le> type_value t \<and> type_value t < 8"
  by (cases t) auto

lemma type_value_and_7: "type_value t AND 7 = type_value t"
  by (cases t) auto

lemma ProtoFieldType_of_type_value: "ProtoFieldType_of (type_value t) = Some t"
  by (cases t) (auto simp: ProtoFieldType_of_def)

lemma tag_eq: "tag i t = 8 * i + type_value t"
  using type_value_range[of t] by (simp add: tag_def type_value_and_7 key_plus)

lemma tag_and_7: "tag i t AND 7 = type_value t"
  unfolding tag_def type_value_and_7
  using type_value_range[of t] by (intro key_and_7) auto

lemma tag_drop_3: "drop_bit 3 (tag i t) = i"
  unfolding tag_def type_value_and_7
  using type_value_range[of t] by (intro key_drop_3) auto

lemma tag_range: "0 < i \<Longrightarrow> i < 2 ^ 74 \<Longrightarrow> 0 \<le> tag i t \<and> tag i t < 2 ^ 77"
  using type_value_range[of t] by (simp add: tag_eq)

lemma readVarint_tag:
  "0 < i \<Longrightarrow> i < 2 ^ 74 \<Longrightarrow> readVarint (writeVarint (tag i t) [] @ rest) = Inr (tag i t, rest)"
  using tag_range[of i t] by (intro readVarint_writeVarint) auto

lemma writeVarint_nonempty: "0 \<le> v \<Longrightarrow> writeVarint v [] \<noteq> []"
  apply (cases "v = 0")
   apply (simp add: writeVarint_def write0_def)
  apply (simp add: writeVarint_def)
  apply (subst writeVarint_loop_step, simp)
  apply (subst writeVarint_loop_append)
  apply (simp add: write0_def)
  done

lemma isRemain_1: "isRemain reader 1 \<longleftrightarrow> reader \<noteq> []"
  by (cases reader) (auto simp: isRemain_def)

lemma isRemain_Suc_0: "isRemain reader (Suc 0) \<longleftrightarrow> reader \<noteq> []"
  by (cases reader) (auto simp: isRemain_def)

text \<open>One iteration of the parsing loop on a known tag.\<close>

lemma parseFields_step:
  assumes "reader \<noteq> []" "readVarint reader = Inr (key, r1)" "drop_bit 3 key \<noteq> 0"
    "ProtoFieldType_of (key AND 7) = Some t"
  shows "parseFields reader g fields =
     (if g \<noteq> None \<and> t = GROUPEND \<and> Some (drop_bit 3 key) = g then Inr (True, fields, r1)
      else
        (case field_value t r1 (parseFields r1 (Some (drop_bit 3 key)) []) of
           Inl e \<Rightarrow> Inl e
         | Inr (value, r2) \<Rightarrow>
             parseFields r2 g (fields @ [ProtoField (drop_bit 3 key) t value])))"
  by (subst parseFields.simps) (simp add: assms isRemain_Suc_0 Let_def)

lemma parseFields_tag:
  assumes "0 < i" "i < 2 ^ 74"
  shows "parseFields (writeVarint (tag i t) [] @ rest) g fields =
     (if g \<noteq> None \<and> t = GROUPEND \<and> Some i = g then Inr (True, fields, rest)
      else
        (case field_value t rest (parseFields rest (Some i) []) of
           Inl e \<Rightarrow> Inl e
         | Inr (value, r2) \<Rightarrow> parseFields r2 g (fields @ [ProtoField i t value])))"
proof -
  have 1: "writeVarint (tag i t) [] @ rest \<noteq> []"
    using tag_range[OF assms, of t] by (simp add: writeVarint_nonempty)
  have 2: "readVarint (writeVarint (tag i t) [] @ rest) = Inr (tag i t, rest)"
    by (rule readVarint_tag[OF assms])
  have 3: "drop_bit 3 (tag i t) \<noteq> 0"
    using assms by (simp add: tag_drop_3)
  have 4: "ProtoFieldType_of (tag i t AND 7) = Some t"
    by (simp only: tag_and_7 ProtoFieldType_of_type_value)
  show ?thesis
    using parseFields_step[OF 1 2 3 4, of g fields] unfolding tag_drop_3 .
qed

lemma parseFields_Nil: "parseFields [] g fields = Inr (g = None, fields, [])"
  by (subst parseFields.simps) (simp add: isRemain_def)

lemma writeVarint_eq: "writeVarint v w = w @ varint_bytes v"
  unfolding varint_bytes_def by (rule writeVarint_append)

lemma tag_unfold: "push_bit 3 i OR (type_value t AND 7) = tag i t"
  by (simp add: tag_def)

lemma tag_unfold_end: "push_bit 3 i OR 4 = tag i GROUPEND"
  by (simp add: tag_def)

lemma toBuf_loop_Cons:
  "toBuf_loop (f # rest) w =
     (case field_out f of Inl e \<Rightarrow> Inl e | Inr X \<Rightarrow> toBuf_loop rest (w @ X))"
  unfolding field_out_def
  by (simp add: toBuf_loop.simps(2)[of f] Let_def writeVarint_eq writeString_def write_bytes_def
        writeInt64_def writeInt32_def
      split: ProtoFieldType.splits pyval.splits sum.splits)


lemma toBuf_loop_writer:
  "toBuf_loop fs w = (case toBuf_loop fs [] of Inl e \<Rightarrow> Inl e | Inr bs \<Rightarrow> Inr (w @ bs))"
proof (induction fs arbitrary: w)
  case Nil
  show ?case by simp
next
  case (Cons f fs)
  show ?case
  proof (cases "field_out f")
    case (Inl e)
    then show ?thesis by (simp add: toBuf_loop_Cons)
  next
    case (Inr X)
    show ?thesis
      using Cons.IH[of "w @ X"] Cons.IH[of X]
      by (simp add: toBuf_loop_Cons Inr split: sum.splits)
  qed
qed

lemma toBuf_Cons:
  "toBuf (f # fs) =
     (case field_out f of Inl e \<Rightarrow> Inl e
      | Inr X \<Rightarrow> (case toBuf fs of Inl e \<Rightarrow> Inl e | Inr bs \<Rightarrow> Inr (X @ bs)))"
proof (cases "field_out f")
  case (Inl e)
  then show ?thesis by (simp add: toBuf_def toBuf_loop_Cons)
next
  case (Inr X)
  then show ?thesis
    using toBuf_loop_writer[of fs X]
    by (simp add: toBuf_def toBuf_loop_Cons)
qed

lemma toBuf_Nil: "toBuf [] = Inr []"
  by (simp add: toBuf_def)

lemma field_out_VARINT:
  "field_out (ProtoField i VARINT (PyInt n)) = Inr (varint_bytes (tag i VARINT) @ varint_bytes n)"
  by (simp add: field_out_def toBuf_loop.simps(2) Let_def writeVarint_eq tag_def)

lemma field_out_STRING:
  "field_out (ProtoField i STRING (PyBytes bs)) =
     Inr (varint_bytes (tag i STRING) @ varint_bytes (int (length bs)) @ bs)"
  by (simp add: field_out_def toBuf_loop.simps(2) Let_def writeVarint_eq tag_def
      writeString_def write_bytes_def)

lemma field_out_INT64:
  "0 \<le> n \<Longrightarrow> n < 2 ^ 64 \<Longrightarrow>
   field_out (ProtoField i INT64 (PyInt n)) =
     Inr (varint_bytes (tag i INT64) @ to_bytes_little_loop 8 n)"
  by (simp add: field_out_def toBuf_loop.simps(2) Let_def writeVarint_eq tag_def
      writeInt64_def to_bytes_little_def write_bytes_def)

lemma field_out_INT32:
  "0 \<le> n \<Longrightarrow> n < 2 ^ 32 \<Longrightarrow>
   field_out (ProtoField i INT32 (PyInt n)) =
     Inr (varint_bytes (tag i INT32) @ to_bytes_little_loop 4 n)"
  by (simp add: field_out_def toBuf_loop.simps(2) Let_def writeVarint_eq tag_def
      writeInt32_def to_bytes_little_def write_bytes_def)

lemma field_out_GROUPSTART:
  "field_out (ProtoField i GROUPSTART (PyProtoBuf pb)) =
     (case toBuf pb of Inl e \<Rightarrow> Inl e
      | Inr gb \<Rightarrow> Inr (varint_bytes (tag i GROUPSTART) @ gb @ varint_bytes (tag i GROUPEND)))"
  by (simp add: field_out_def toBuf_def toBuf_loop.simps(2) Let_def writeVarint_eq tag_def
      write_bytes_def split: sum.splits)

lemma length_to_bytes_little_loop: "length (to_bytes_little_loop k v) = k"
  by (induction k arbitrary: v) auto

lemma from_to_bytes_little:
  "0 \<le> v \<Longrightarrow> v < 2 ^ (8 * k) \<Longrightarrow> from_bytes_little (to_bytes_little_loop k v) = v"
proof (induction k arbitrary: v)
  case 0
  then show ?case by simp
next
  case (Suc k)
  have "v < 256 * 2 ^ (8 * k)"
    using Suc.prems(2) by (simp add: power_add)
  then have "v div 256 < 2 ^ (8 * k)" by linarith
  moreover have "0 \<le> v div 256" using Suc.prems(1) by simp
  ultimately have "from_bytes_little (to_bytes_little_loop k (v div 256)) = v div 256"
    by (rule Suc.IH[rotated])
  then show ?case
    by (simp add: uint_word_of_int)
qed

lemma read_append: "read (bs @ rest) (int (length bs)) = Inr (bs, rest)"
  by (simp add: read_def isRemain_def)

lemma readInt64_to_bytes:
  "0 \<le> v \<Longrightarrow> v < 2 ^ 64 \<Longrightarrow> readInt64 (to_bytes_little_loop 8 v @ rest) = Inr (v, rest)"
  using read_append[of "to_bytes_little_loop 8 v" rest] from_to_bytes_little[of v 8]
  by (simp add: readInt64_def length_to_bytes_little_loop)

lemma readInt32_to_bytes:
  "0 \<le> v \<Longrightarrow> v < 2 ^ 32 \<Longrightarrow> readInt32 (to_bytes_little_loop 4 v @ rest) = Inr (v, rest)"
  using read_append[of "to_bytes_little_loop 4 v" rest] from_to_bytes_little[of v 4]
  by (simp add: readInt32_def length_to_bytes_little_loop)

lemma readVarint_varint_bytes:
  "0 \<le> v \<Longrightarrow> v < 2 ^ 77 \<Longrightarrow> readVarint (varint_bytes v @ rest) = Inr (v, rest)"
  unfolding varint_bytes_def by (rule readVarint_writeVarint)

lemma readString_bytes:
  "int (length bs) < 2 ^ 77 \<Longrightarrow>
   readString (varint_bytes (int (length bs)) @ bs @ rest) = Inr (bs, rest)"
  using read_append[of bs rest]
  by (simp add: readString_def readVarint_varint_bytes)

lemma fields_roundtrip_from_fields:
  "(\<And>f. f \<in> set fs \<Longrightarrow> field_roundtrip f) \<Longrightarrow> fields_roundtrip fs"
proof (induction fs)
  case Nil
  show ?case by (simp add: fields_roundtrip_def toBuf_Nil)
next
  case (Cons f fs)
  from Cons.prems have "field_roundtrip f" by simp
  then obtain X where X: "field_out f = Inr X"
    and pX: "\<And>rest g acc. parseFields (X @ rest) g acc = parseFields rest g (acc @ [f])"
    unfolding field_roundtrip_def by blast
  from Cons have "fields_roundtrip fs" by simp
  then obtain bs where bs: "toBuf fs = Inr bs"
    and pbs: "\<And>rest g acc. parseFields (bs @ rest) g acc = parseFields rest g (acc @ fs)"
    unfolding fields_roundtrip_def by blast
  have "toBuf (f # fs) = Inr (X @ bs)"
    by (simp add: toBuf_Cons X bs)
  moreover have "parseFields ((X @ bs) @ rest) g acc = parseFields rest g (acc @ f # fs)"
    for rest g acc
    using pX[of "bs @ rest" g acc] pbs[of rest g "acc @ [f]"] by simp
  ultimately show ?case
    unfolding fields_roundtrip_def by blast
qed

lemma parseFields_tag':
  assumes "0 < i" "i < 2 ^ 74"
  shows "parseFields (varint_bytes (tag i t) @ rest) g fields =
     (if g \<noteq> None \<and> t = GROUPEND \<and> Some i = g then Inr (True, fields, rest)
      else
        (case field_value t rest (parseFields rest (Some i) []) of
           Inl e \<Rightarrow> Inl e
         | Inr (value, r2) \<Rightarrow> parseFields r2 g (fields @ [ProtoField i t value])))"
  unfolding varint_bytes_def by (rule parseFields_tag[OF assms])

lemma wf_field_roundtrip: "wf_field f \<Longrightarrow> field_roundtrip f"
proof (induction f rule: wf_field.induct)
  case (1 i t v)
  from "1.prems" have i: "0 < i" "i < 2 ^ 74" by auto
  show ?case
  proof (cases t)
    case VARINT
    with "1.prems" obtain n where v: "v = PyInt n" and n: "0 \<le> n" "n < 2 ^ 77"
      by (auto split: pyval.splits)
    show ?thesis
      unfolding field_roundtrip_def VARINT v
      by (simp add: field_out_VARINT parseFields_tag'[OF i] readVarint_varint_bytes[OF n])
  next
    case INT64
    with "1.prems" obtain n where v: "v = PyInt n" and n: "0 \<le> n" "n < 2 ^ 64"
      by (auto split: pyval.splits)
    show ?thesis
      unfolding field_roundtrip_def INT64 v
      by (simp add: field_out_INT64[OF n] parseFields_tag'[OF i] readInt64_to_bytes[OF n])
  next
    case STRING
    with "1.prems" obtain bs where v: "v = PyBytes bs" and n: "int (length bs) < 2 ^ 77"
      by (auto split: pyval.splits)
    show ?thesis
      unfolding field_roundtrip_def STRING v
      by (simp add: field_out_STRING parseFields_tag'[OF i] readString_bytes[OF n])
  next
    case GROUPSTART
    with "1.prems" obtain pb where v: "v = PyProtoBuf pb" and wf: "list_all wf_field pb"
      by (auto split: pyval.splits)
    have "fields_roundtrip pb"
    proof (rule fields_roundtrip_from_fields)
      fix f assume f: "f \<in> set pb"
      with wf have "wf_field f" by (simp add: list_all_iff)
      with "1.IH"[OF GROUPSTART v f] show "field_roundtrip f" .
    qed
    then obtain gb where gb: "toBuf pb = Inr gb"
      and pgb: "\<And>rest g acc. parseFields (gb @ rest) g acc = parseFields rest g (acc @ pb)"
      unfolding fields_roundtrip_def by blast
    have nested: "parseFields (gb @ varint_bytes (tag i GROUPEND) @ rest) (Some i) []
        = Inr (True, pb, rest)" for rest
      using pgb[of "varint_bytes (tag i GROUPEND) @ rest" "Some i" "[]"]
      by (simp add: parseFields_tag'[OF i])
    show ?thesis
      unfolding field_roundtrip_def GROUPSTART v
      by (simp add: field_out_GROUPSTART gb parseFields_tag'[OF i] nested)
  next
    case GROUPEND
    with "1.prems" show ?thesis by simp
  next
    case INT32
    with "1.prems" obtain n where v: "v = PyInt n" and n: "0 \<le> n" "n < 2 ^ 32"
      by (auto split: pyval.splits)
    show ?thesis
      unfolding field_roundtrip_def INT32 v
      by (simp add: field_out_INT32[OF n] parseFields_tag'[OF i] readInt32_to_bytes[OF n])
  qed
qed

lemma wf_fields_roundtrip: "list_all wf_field fs \<Longrightarrow> fields_roundtrip fs"
  by (rule fields_roundtrip_from_fields) (simp add: list_all_iff wf_field_roundtrip)

lemma toBuf_wf_ok: "list_all wf_field fs \<Longrightarrow> \<exists>bs. toBuf fs = Inr bs"
  using wf_fields_roundtrip[of fs] unfolding fields_roundtrip_def by blast

lemma parseFields_toBuf:
  "list_all wf_field fs \<Longrightarrow> toBuf fs = Inr bs \<Longrightarrow>
   parseFields (bs @ rest) g acc = parseFields rest g (acc @ fs)"
  using wf_fields_roundtrip[of fs] unfolding fields_roundtrip_def by auto

lemma ProtoBuf_bytes_toBuf:
  assumes "list_all wf_field fs" "toBuf fs = Inr bs"
  shows "ProtoBuf_bytes bs = Inr fs"
proof -
  have e: "parseFields bs None [] = Inr (True, fs, [])"
    using parseFields_toBuf[OF assms, of "[]" None "[]"] by (simp add: parseFields_Nil)
  show ?thesis
  proof (cases "bs = []")
    case True
    with e have "fs = []" by (simp add: parseFields_Nil)
    with True show ?thesis by (simp add: ProtoBuf_bytes_def)
  next
    case False
    with e show ?thesis by (simp add: ProtoBuf_bytes_def)
  qed
qed

lemma readVarint_loop_range:
  "readVarint_loop reader vint n = Inr (v, r) \<Longrightarrow> 0 \<le> vint \<Longrightarrow> vint < 2 ^ (7 * n) \<Longrightarrow>
   n \<le> 10 \<Longrightarrow> 0 \<le> v \<and> v < 2 ^ 77"
proof (induction reader arbitrary: vint n)
  case Nil
  then show ?case by (simp add: readVarint_loop_Nil)
next
  case (Cons b reader)
  let ?x = "uint b AND 0x7F"
  let ?v' = "vint OR push_bit (7 * n) ?x"
  have x: "0 \<le> ?x" "?x < 2 ^ 7"
    using low_byte_lt[of "uint b"] by (simp_all add: and_127_take_bit)
  have p: "0 \<le> push_bit (7 * n) ?x" "push_bit (7 * n) ?x < 2 ^ (7 * Suc n)"
    using x by (simp_all add: push_bit_eq_mult power_add)
  have "vint < 2 ^ (7 * Suc n)"
    using Cons.prems(3) by (rule less_le_trans) simp
  with Cons.prems(2) p have v': "0 \<le> ?v'" "?v' < 2 ^ (7 * Suc n)"
    by (simp_all add: OR_upper)
  show ?case
  proof (cases "uint b < 0x80")
    case True
    with Cons.prems(1) have "v = ?v'" by (simp add: readVarint_loop_Cons)
    moreover have "(2::int) ^ (7 * Suc n) \<le> 2 ^ 77"
      using Cons.prems(4) by (intro power_increasing) auto
    ultimately show ?thesis using v' by auto
  next
    case False
    with Cons.prems(1) have n: "n < 10" and rec: "readVarint_loop reader ?v' (Suc n) = Inr (v, r)"
      by (auto simp: readVarint_loop_Cons split: if_splits)
    from Cons.IH[OF rec v'] n show ?thesis by simp
  qed
qed

lemma readVarint_range: "readVarint reader = Inr (v, r) \<Longrightarrow> 0 \<le> v \<and> v < 2 ^ 77"
  unfolding readVarint_def by (rule readVarint_loop_range) auto

lemma from_bytes_little_range:
  "0 \<le> from_bytes_little bs \<and> from_bytes_little bs < 2 ^ (8 * length bs)"
proof (induction bs)
  case Nil
  show ?case by simp
next
  case (Cons b bs)
  have "uint b < 256" using uint_bounded[of b] by simp
  moreover have "0 \<le> uint b" by simp
  ultimately show ?case
    using Cons by (simp add: power_add) 
qed

lemma read_result: "read reader len = Inr (bs, r) \<Longrightarrow> 0 \<le> len \<Longrightarrow> length bs = nat len \<and> reader = bs @ r"
  by (auto simp: read_def isRemain_def split: if_splits)

lemma readInt64_range: "readInt64 reader = Inr (v, r) \<Longrightarrow> 0 \<le> v \<and> v < 2 ^ 64"
  using from_bytes_little_range[of "take 8 reader"]
  by (auto simp: readInt64_def read_def isRemain_def split: if_splits)

lemma readInt32_range: "readInt32 reader = Inr (v, r) \<Longrightarrow> 0 \<le> v \<and> v < 2 ^ 32"
  using from_bytes_little_range[of "take 4 reader"]
  by (auto simp: readInt32_def read_def isRemain_def split: if_splits)

lemma readString_range: "readString reader = Inr (bs, r) \<Longrightarrow> int (length bs) < 2 ^ 77"
  by (auto simp: readString_def read_def isRemain_def split: sum.splits if_splits
      dest!: readVarint_range)

lemma field_value_wf:
  assumes fv: "field_value ft r1 nested = Inr (v, r2)"
    and i: "0 < i" "i < 2 ^ 74"
    and nested: "\<And>b fs r. ft = GROUPSTART \<Longrightarrow> nested = Inr (b, fs, r) \<Longrightarrow> list_all wf_field fs"
  shows "wf_field (ProtoField i ft v)"
proof (cases ft)
  case VARINT
  with fv i show ?thesis
    by (auto split: sum.splits dest: readVarint_range)
next
  case INT64
  with fv i show ?thesis
    by (auto split: sum.splits dest: readInt64_range)
next
  case STRING
  with fv i show ?thesis
    by (auto split: sum.splits dest: readString_range)
next
  case GROUPSTART
  with fv i nested show ?thesis
    by (auto split: sum.splits if_splits)
next
  case GROUPEND
  with fv show ?thesis by simp
next
  case INT32
  with fv i show ?thesis
    by (auto split: sum.splits dest: readInt32_range)
qed

lemma parseFields_wf:
  "parseFields reader g fields = Inr (b, fs, r) \<Longrightarrow> list_all wf_field fields
     \<Longrightarrow> list_all wf_field fs"
proof (induction reader g fields arbitrary: b fs r rule: parseFields.induct)
  case (1 reader g fields)
  note eq = "1.prems"(1)[unfolded parseFields.simps[of reader g fields]]
  show ?case
  proof (cases "isRemain reader 1")
    case False
    with eq "1.prems"(2) show ?thesis by simp
  next
    case True
    then have nn: "\<not> \<not> isRemain reader 1" by simp
    from eq True obtain key r1 where rv: "readVarint reader = Inr (key, r1)"
      by (auto split: sum.splits)
    from eq True rv have nz: "drop_bit 3 key \<noteq> 0"
      by (auto simp: Let_def split: if_splits)
    from readVarint_range[OF rv] have k: "0 \<le> key" "key < 2 ^ 77" by auto
    then have "key div 8 < 2 ^ 74" by simp
    with k nz have i: "0 < drop_bit 3 key" "drop_bit 3 key < 2 ^ 74"
      by (simp_all add: drop_bit_eq_div)
    show ?thesis
    proof (cases "ProtoFieldType_of (key AND 7)")
      case None
      with eq True rv nz obtain r2 where sk: "skipField (key AND 7) r1 = Inr r2"
        and rec: "parseFields r2 g fields = Inr (b, fs, r)"
        by (auto simp: Let_def split: sum.splits)
      from "1.IH"(1)[OF nn rv refl refl refl nz None sk rec "1.prems"(2)]
      show ?thesis .
    next
      case (Some ft)
      show ?thesis
      proof (cases "g \<noteq> None \<and> ft = GROUPEND \<and> Some (drop_bit 3 key) = g")
        case True
        with eq \<open>isRemain reader 1\<close> rv nz Some have "fs = fields"
          by (auto simp: Let_def)
        with "1.prems"(2) show ?thesis by simp
      next
        case False
        let ?X = "field_value ft r1 (parseFields r1 (Some (drop_bit 3 key)) [])"
        from False eq \<open>isRemain reader 1\<close> rv nz Some
        have eq': "(case ?X of Inl e \<Rightarrow> Inl e
                    | Inr (v, r2) \<Rightarrow> parseFields r2 g (fields @ [ProtoField (drop_bit 3 key) ft v]))
                   = Inr (b, fs, r)"
          by (auto simp: Let_def)
        then obtain v r2 where
          fv: "?X = Inr (v, r2)"
          and rec: "parseFields r2 g (fields @ [ProtoField (drop_bit 3 key) ft v]) = Inr (b, fs, r)"
          by (cases ?X) auto
        have "wf_field (ProtoField (drop_bit 3 key) ft v)"
        proof (rule field_value_wf[OF fv i])
          fix b' fs' r'
          assume gs: "ft = GROUPSTART"
            and n: "parseFields r1 (Some (drop_bit 3 key)) [] = Inr (b', fs', r')"
          from "1.IH"(2)[OF nn rv refl refl refl nz Some False gs n] show "list_all wf_field fs'"
            by simp
        qed
        with "1.prems"(2) have "list_all wf_field (fields @ [ProtoField (drop_bit 3 key) ft v])"
          by simp
        from "1.IH"(3)[OF nn rv refl refl refl nz Some False fv refl rec this]
        show ?thesis .
      qed
    qed
  qed
qed

lemma ProtoBuf_bytes_wf: "ProtoBuf_bytes data = Inr fs \<Longrightarrow> list_all wf_field fs"
  by (auto simp: ProtoBuf_bytes_def split: if_splits sum.splits py_error.splits
      dest: parseFields_wf)

subsection \<open>Groups and nesting\<close>










subsection \<open>Trees built by puts\<close>

lemma apply_put_wf:
  assumes "0 < put_idx p" "put_idx p < 2 ^ 74" "value_in_range p" "apply_put p fields = Inr fields'"
    "list_all wf_field fields"
  shows "list_all wf_field fields'"
proof (cases p)
  case (PutVarint i v)
  have "(2::int) ^ 64 \<le> 2 ^ 77" by simp
  with assms PutVarint have "v < 2 ^ 77" by auto
  with assms PutVarint show ?thesis
    by (auto simp: putVarint_def put_def)
next
  case (PutInt32 i v)
  with assms show ?thesis by (auto simp: putInt32_def put_def)
next
  case (PutInt64 i v)
  with assms show ?thesis by (auto simp: putInt64_def put_def)
next
  case (PutBytes i bs)
  with assms show ?thesis by (auto simp: putBytes_def put_def)
next
  case (PutUtf8 i s)
  with assms show ?thesis by (auto simp: putUtf8_def put_def split: option.splits)
qed

lemma apply_puts_wf:
  "list_all (\<lambda>p. 0 < put_idx p \<and> put_idx p < 2 ^ 74 \<and> value_in_range p) ps \<Longrightarrow>
   apply_puts ps fields = Inr T \<Longrightarrow> list_all wf_field fields \<Longrightarrow> list_all wf_field T"
proof (induction ps arbitrary: fields)
  case Nil
  then show ?case by simp
next
  case (Cons p ps)
  from Cons.prems(2) obtain fields' where a: "apply_put p fields = Inr fields'"
    and b: "apply_puts ps fields' = Inr T"
    by (auto split: sum.splits)
  from Cons.prems(1) have p: "0 < put_idx p" "put_idx p < 2 ^ 74" "value_in_range p"
    and ps: "list_all (\<lambda>p. 0 < put_idx p \<and> put_idx p < 2 ^ 74 \<and> value_in_range p) ps"
    by auto
  from apply_put_wf[OF p a Cons.prems(3)] have "list_all wf_field fields'" .
  from Cons.IH[OF ps b this] show ?case .
qed

subsection \<open>The parser on a bounded stack\<close>

lemma parseFields_frames_step:
  assumes "reader \<noteq> []" "readVarint reader = Inr (key, r1)" "drop_bit 3 key \<noteq> 0"
    "ProtoFieldType_of (key AND 7) = Some t"
  shows "parseFields_frames frames reader g fields =
     (if g \<noteq> None \<and> t = GROUPEND \<and> Some (drop_bit 3 key) = g then Inr (True, fields, r1)
      else
        (case field_value t r1 (nested_frames frames r1 (drop_bit 3 key)) of
           Inl e \<Rightarrow> Inl e
         | Inr (value, r2) \<Rightarrow>
             parseFields_frames frames r2 g (fields @ [ProtoField (drop_bit 3 key) t value])))"
  by (subst parseFields_frames.simps) (simp add: assms isRemain_Suc_0 Let_def)
















text \<open>
  The parser on a bounded stack agrees with the parser on an unbounded one unless the
  stack runs out: what is proved of a result of \<open>ProtoBuf_bytes\<close> holds of
  \<open>ProtoBuf_frames\<close> whenever that does not raise the unexpected error.
\<close>

lemma field_value_nongroup_eq:
  "ft \<noteq> GROUPSTART \<Longrightarrow> field_value ft r1 nested = field_value ft r1 nested'"
  by (cases ft) auto

lemma parseFields_frames_parseFields:
  "parseFields_frames frames reader g fields \<noteq> Inl RecursionError \<Longrightarrow>
   parseFields reader g fields = parseFields_frames frames reader g fields"
proof (induction frames reader g fields rule: parseFields_frames.induct)
  case (1 frames reader g fields)
  note ne = "1.prems"
  show ?case
  proof (cases "isRemain reader 1")
    case False
    then show ?thesis
      by (simp add: parseFields.simps[of reader] parseFields_frames.simps[of frames reader])
  next
    case True
    then have nn: "\<not> \<not> isRemain reader 1" and rne: "reader \<noteq> []"
      by (simp_all add: isRemain_Suc_0)
    show ?thesis
    proof (cases "readVarint reader")
      case (Inl e)
      with True show ?thesis
        by (simp add: parseFields.simps[of reader] parseFields_frames.simps[of frames reader])
    next
      case (Inr kr)
      obtain key r1 where kr: "kr = (key, r1)" by (cases kr)
      with Inr have rv: "readVarint reader = Inr (key, r1)" by simp
      let ?i = "drop_bit 3 key"
      show ?thesis
      proof (cases "?i = 0")
        case True
        with \<open>isRemain reader 1\<close> rv show ?thesis
          by (simp add: parseFields.simps[of reader] parseFields_frames.simps[of frames reader])
      next
        case nz: False
        show ?thesis
        proof (cases "ProtoFieldType_of (key AND 7)")
          case None
          show ?thesis
          proof (cases "skipField (key AND 7) r1")
            case (Inl e)
            with \<open>isRemain reader 1\<close> rv nz None show ?thesis
              by (simp add: parseFields.simps[of reader] parseFields_frames.simps[of frames reader])
          next
            case (Inr r2)
            with \<open>isRemain reader 1\<close> rv nz None
            have a: "parseFields_frames frames reader g fields = parseFields_frames frames r2 g fields"
              and b: "parseFields reader g fields = parseFields r2 g fields"
              by (simp_all add: parseFields.simps[of reader] parseFields_frames.simps[of frames reader])
            from ne a have "parseFields_frames frames r2 g fields \<noteq> Inl RecursionError" by simp
            from "1.IH"(1)[OF nn rv refl refl refl nz None Inr this] a b show ?thesis by simp
          qed
        next
          case (Some ft)
          note sf = parseFields_frames_step[OF rne rv nz Some, of frames g fields]
          note su = parseFields_step[OF rne rv nz Some, of g fields]
          show ?thesis
          proof (cases "g \<noteq> None \<and> ft = GROUPEND \<and> Some ?i = g")
            case True
            then show ?thesis by (simp add: sf su)
          next
            case False
            let ?X = "field_value ft r1 (nested_frames frames r1 ?i)"
            let ?Y = "field_value ft r1 (parseFields r1 (Some ?i) [])"
            from False sf have sf': "parseFields_frames frames reader g fields =
                (case ?X of Inl e \<Rightarrow> Inl e
                 | Inr (v, r2) \<Rightarrow> parseFields_frames frames r2 g (fields @ [ProtoField ?i ft v]))"
              by (simp only: if_False)
            from False su have su': "parseFields reader g fields =
                (case ?Y of Inl e \<Rightarrow> Inl e
                 | Inr (v, r2) \<Rightarrow> parseFields r2 g (fields @ [ProtoField ?i ft v]))"
              by (simp only: if_False)
            have XY: "?Y = ?X"
            proof (cases "ft = GROUPSTART")
              case False
              then show ?thesis by (rule field_value_nongroup_eq)
            next
              case gs: True
              show ?thesis
              proof (cases frames)
                case 0
                with gs sf' have "parseFields_frames frames reader g fields = Inl RecursionError"
                  by simp
                with ne show ?thesis by simp
              next
                case (Suc k)
                have "parseFields_frames k r1 (Some ?i) [] \<noteq> Inl RecursionError"
                proof
                  assume "parseFields_frames k r1 (Some ?i) [] = Inl RecursionError"
                  with gs sf' Suc have "parseFields_frames frames reader g fields = Inl RecursionError"
                    by simp
                  with ne show False by simp
                qed
                from "1.IH"(2)[OF nn rv refl refl refl nz Some False gs Suc this] Suc gs
                show ?thesis by simp
              qed
            qed
            show ?thesis
            proof (cases ?X)
              case (Inl e)
              with XY sf' su' show ?thesis by simp
            next
              case (Inr vr)
              obtain v r2 where vr: "vr = (v, r2)" by (cases vr)
              with Inr have fv: "?X = Inr (v, r2)" by simp
              from sf' fv have a: "parseFields_frames frames reader g fields =
                  parseFields_frames frames r2 g (fields @ [ProtoField ?i ft v])"
                by simp
              from su' XY fv have b: "parseFields reader g fields =
                  parseFields r2 g (fields @ [ProtoField ?i ft v])"
                by simp
              from ne a have "parseFields_frames frames r2 g (fields @ [ProtoField ?i ft v])
                              \<noteq> Inl RecursionError" by simp
              from "1.IH"(3)[OF nn rv refl refl refl nz Some False fv refl this] a b
              show ?thesis by simp
            qed
          qed
        qed
      qed
    qed
  qed
qed

lemma ProtoBuf_frames_ProtoBuf_bytes:
  assumes "ProtoBuf_frames frames data \<noteq> Inl (ProtoError UnexpectedError)"
  shows "ProtoBuf_bytes data = ProtoBuf_frames frames data"
proof (cases "data = []")
  case True
  then show ?thesis by (simp add: ProtoBuf_frames_def ProtoBuf_bytes_def)
next
  case False
  with assms have "parseFields_frames frames data None [] \<noteq> Inl RecursionError"
    by (auto simp: ProtoBuf_frames_def)
  from parseFields_frames_parseFields[OF this] show ?thesis
    by (simp add: ProtoBuf_frames_def ProtoBuf_bytes_def)
qed

subsection \<open>Truncated input\<close>











subsection \<open>Nested groups on a bounded stack\<close>








section \<open>Claims\<close>

text \<open>
  C3 (the code does not cap at 10 groups). \<open>readVarint\<close> tests \<open>n > 10\<close> after it has
  counted a continuation byte, so ten continuation bytes pass and the byte after them is
  accumulated as an 11th group of 7 bits: ten bytes \<open>FF\<close> and a byte \<open>7F\<close> are read as
  \<open>2^77 - 1\<close>, which does not fit 64 bits.
\<close>

theorem readVarint_eleven_groups:
  "readVarint (replicate 10 0xFF @ [0x7F]) = Inr (2 ^ 77 - 1, [])
   \<and> (2 :: int) ^ 64 \<le> 2 ^ 77 - 1"
proof -
  have "readVarint (replicate 10 0xFF @ [0x7F]) = Inr (2 ^ 77 - 1, [])"
    by code_simp
  then show ?thesis by simp
qed

text \<open>
  C3, the cap that the code has. After any number of continuation bytes and a final
  byte, \<open>readVarint\<close> returns the value of all the groups when the continuation bytes
  are at most 10 (so up to 11 groups, 77 bits), and raises \<open>Varint too long\<close> when they
  are more.
\<close>

theorem readVarint_cap:
  assumes "list_all (\<lambda>c. 0x80 \<le> uint c) cs" and "uint b < 0x80"
  shows "readVarint (cs @ b # rest) =
     (if length cs \<le> 10 then Inr (varint_value (cs @ [b]), rest)
      else Inl (ProtoError VarintTooLong))"
proof (cases "length cs \<le> 10")
  case True
  with readVarint_loop_value[OF assms, of 0 rest 0] show ?thesis
    by (simp add: readVarint_def)
next
  case False
  let ?a = "take 11 cs"
  from False have l: "length ?a = 11" by simp
  from assms(1) have "\<forall>c \<in> set ?a. 0x80 \<le> uint c"
    by (auto simp: list_all_iff dest: in_set_takeD)
  moreover from False have "cs \<noteq> []" by auto
  ultimately
  have "readVarint_loop (?a @ drop 11 cs @ b # rest) 0 0 = Inl (ProtoError VarintTooLong)"
    using readVarint_loop_too_long[of ?a 0 "drop 11 cs @ b # rest" 0] l by simp
  moreover have "?a @ drop 11 cs @ b # rest = cs @ b # rest"
    by simp
  ultimately show ?thesis using False
    by (simp add: readVarint_def)
qed

theorem readVarint_cap_witness:
  "list_all (\<lambda>c. 0x80 \<le> uint c) (replicate 10 (0xFF :: byte))
   \<and> uint (0x7F :: byte) < 0x80
   \<and> readVarint (replicate 10 0xFF @ [0x7F, 0x08]) = Inr (2 ^ 77 - 1, [0x08])
   \<and> readVarint (replicate 11 0xFF @ [0x7F, 0x08]) = Inl (ProtoError VarintTooLong)"
proof -
  have a: "list_all (\<lambda>c. 0x80 \<le> uint c) (replicate 10 (0xFF :: byte))" by code_simp
  have a': "list_all (\<lambda>c. 0x80 \<le> uint c) (replicate 11 (0xFF :: byte))" by code_simp
  have b: "uint (0x7F :: byte) < 0x80" by simp
  have v: "varint_value (replicate 10 0xFF @ [0x7F]) = 2 ^ 77 - 1" by code_simp
  from readVarint_cap[OF a b, of "[0x08]"] readVarint_cap[OF a' b, of "[0x08]"] a b v
  show ?thesis by simp
qed

text \<open>
  C5. For every unsigned 64-bit value \<open>v\<close>, reading back what \<open>writeVarint\<close> wrote
  gives \<open>v\<close> and consumes exactly the bytes written, and the number of bytes written is
  \<open>\<lceil>bits(v) / 7\<rceil>\<close>, with one byte for \<open>v = 0\<close>.
\<close>

theorem varint_law:
  assumes "0 \<le> v" and "v < 2 ^ 64"
  shows "readVarint (writeVarint v [] @ rest) = Inr (v, rest)
         \<and> int (length (writeVarint v [])) = max 1 \<lceil>real_of_int (bitlen v) / 7\<rceil>"
proof
  have "(2::int) ^ 64 \<le> 2 ^ 77" by simp
  with assms(2) have "v < 2 ^ 77" by linarith
  with assms(1) show "readVarint (writeVarint v [] @ rest) = Inr (v, rest)"
    by (rule readVarint_writeVarint)
next
  show "int (length (writeVarint v [])) = max 1 \<lceil>real_of_int (bitlen v) / 7\<rceil>"
  proof (cases "v = 0")
    case True
    then show ?thesis by (simp add: writeVarint_def write0_def)
  next
    case False
    with assms(1) have pos: "0 < v" by simp
    then have "1 \<le> bitlen v"
      using bitlen_eq_zero_iff[of v] bitlen_nonneg[of v] by linarith
    then have "1 \<le> (bitlen v + 6) div 7" by linarith
    then show ?thesis
      using False length_writeVarint_loop[OF pos]
      by (simp add: writeVarint_def ceiling_div7)
  qed
qed

theorem varint_law_witness:
  "(0::int) \<le> 300 \<and> (300::int) < 2 ^ 64
   \<and> readVarint (writeVarint 300 [] @ [0x07]) = Inr (300, [0x07])
   \<and> int (length (writeVarint 300 [])) = max 1 \<lceil>real_of_int (bitlen 300) / 7\<rceil>"
proof -
  have a: "(0::int) \<le> 300" by simp
  have b: "(300::int) < 2 ^ 64" by simp
  show ?thesis
    using a b varint_law[OF a b, of "[0x07]"] by blast
qed

text \<open>
  C9. For a negative \<open>v\<close>, \<open>writeVarint\<close> appends nothing to the sink, so a VARINT
  field holding a negative value is serialized as its tag alone.
\<close>

theorem writeVarint_negative:
  assumes "v < 0"
  shows "writeVarint v w = w
         \<and> toBuf_loop (putVarint i v [] @ rest) w
             = toBuf_loop rest (writeVarint (push_bit 3 i OR (type_value VARINT AND 7)) w)
         \<and> toBuf (putVarint i v []) = Inr (writeVarint (push_bit 3 i OR 0) [])"
proof -
  have w: "\<And>w. writeVarint v w = w"
    using assms by (simp add: writeVarint_def writeVarint_loop_stop)
  show ?thesis
    by (simp add: w putVarint_def put_def toBuf_def toBuf_loop.simps(2) Let_def)
qed

theorem writeVarint_negative_witness:
  "(-1 :: int) < 0 \<and> writeVarint (-1) [0x2A] = [0x2A]
   \<and> toBuf (putVarint 1 (-1) []) = Inr [0x08]"
proof -
  have a: "(-1 :: int) < 0" by simp
  have "writeVarint (push_bit 3 1 OR 0) [] = [0x08 :: byte]"
    by (simp add: writeVarint_def writeVarint_loop_step writeVarint_loop_stop varint_byte_def
        write0_def drop_bit_eq_div)
  then show ?thesis
    using writeVarint_negative[OF a, of "[0x2A]" 1 "[]"] by simp
qed

text \<open>
  C10. When no stored field has the requested number, \<open>getInt\<close> returns the default 0,
  while \<open>getBytes\<close>, \<open>getUtf8\<close> and \<open>getProtoBuf\<close> return \<open>None\<close>; and \<open>getInt\<close>
  raises exactly when the first field with that number exists and its wire type is
  none of VARINT, INT32 (fixed32) and INT64 (fixed64).
\<close>

theorem getters_missing_field:
  "(i \<notin> idx ` set fields \<longrightarrow>
      getInt fields i = Inr (PyInt 0) \<and> getBytes str_utf8 fields i = Inr None
      \<and> getUtf8 str_utf8 fields i = Inr None \<and> getProtoBuf fields i = Inr None)
   \<and> ((\<exists>e. getInt fields i = Inl e) \<longleftrightarrow>
        (\<exists>pf. get fields i = Some pf \<and> ftype pf \<noteq> VARINT \<and> ftype pf \<noteq> INT32
              \<and> ftype pf \<noteq> INT64))"
proof -
  have "i \<notin> idx ` set fields \<Longrightarrow> get fields i = None"
    by (induction fields) auto
  then show ?thesis
    by (auto simp: getInt_def getBytes_def getUtf8_def getProtoBuf_def split: option.splits)
qed

theorem getters_missing_field_witness:
  "(2 :: int) \<notin> idx ` set [ProtoField 1 STRING (PyBytes [0x61])]
   \<and> getInt [ProtoField 1 STRING (PyBytes [0x61])] 2 = Inr (PyInt 0)
   \<and> getBytes (\<lambda>v. []) [ProtoField 1 STRING (PyBytes [0x61])] 2 = Inr None
   \<and> getUtf8 (\<lambda>v. []) [ProtoField 1 STRING (PyBytes [0x61])] 2 = Inr None
   \<and> getProtoBuf [ProtoField 1 STRING (PyBytes [0x61])] 2 = Inr None
   \<and> (\<exists>e. getInt [ProtoField 1 STRING (PyBytes [0x61])] 1 = Inl e)"
proof -
  have a: "(2 :: int) \<notin> idx ` set [ProtoField 1 STRING (PyBytes [0x61])]" by simp
  have b: "\<exists>pf. get [ProtoField 1 STRING (PyBytes [0x61])] 1 = Some pf \<and> ftype pf \<noteq> VARINT
      \<and> ftype pf \<noteq> INT32 \<and> ftype pf \<noteq> INT64" by simp
  show ?thesis
    using a b getters_missing_field[of 2 "[ProtoField 1 STRING (PyBytes [0x61])]" "\<lambda>v. []"]
      getters_missing_field[of 1 "[ProtoField 1 STRING (PyBytes [0x61])]" "\<lambda>v. []"]
    by blast
qed

text \<open>
  C1 (as stated, refuted). Parsing keeps the value of a varint, not its encoding: the
  buffer \<open>88 00 05\<close> carries the tag 8 padded to two bytes; it parses to field 1 with
  the VARINT value 5, which serializes to \<open>08 05\<close>.
\<close>

theorem serialize_parse_not_identity:
  "ProtoBuf_bytes [0x88, 0x00, 0x05] = Inr [ProtoField 1 VARINT (PyInt 5)]
   \<and> toBuf [ProtoField 1 VARINT (PyInt 5)] = Inr [0x08, 0x05]
   \<and> [0x08, 0x05] \<noteq> [0x88, 0x00, 0x05 :: byte]"
  by code_simp

text \<open>
  C1 (amended). If \<open>ProtoBuf(B)\<close> succeeds with the tree \<open>T\<close>, then \<open>T.toBuf()\<close>
  succeeds and parses back to exactly \<open>T\<close>, and it equals \<open>B\<close> byte for byte whenever
  \<open>B\<close> is itself the serialization of a well-formed tree, that is, whenever \<open>B\<close> uses
  the serializer's own (minimal) varint encodings.
\<close>

theorem serialize_parse_canonical:
  assumes "ProtoBuf_bytes B = Inr T"
  shows "\<exists>B'. toBuf T = Inr B' \<and> ProtoBuf_bytes B' = Inr T
           \<and> (\<forall>T'. list_all wf_field T' \<and> toBuf T' = Inr B \<longrightarrow> B' = B)"
proof -
  have wf: "list_all wf_field T" by (rule ProtoBuf_bytes_wf[OF assms])
  then obtain B' where B': "toBuf T = Inr B'" using toBuf_wf_ok by blast
  have re: "ProtoBuf_bytes B' = Inr T" by (rule ProtoBuf_bytes_toBuf[OF wf B'])
  have "B' = B" if "list_all wf_field T'" "toBuf T' = Inr B" for T'
  proof -
    from ProtoBuf_bytes_toBuf[OF that] assms have "T' = T" by simp
    with that(2) B' show ?thesis by simp
  qed
  with B' re show ?thesis by blast
qed

theorem serialize_parse_canonical_witness:
  "ProtoBuf_bytes [0x88, 0x00, 0x05] = Inr [ProtoField 1 VARINT (PyInt 5)]
   \<and> toBuf [ProtoField 1 VARINT (PyInt 5)] = Inr [0x08, 0x05]
   \<and> ProtoBuf_bytes [0x08, 0x05] = Inr [ProtoField 1 VARINT (PyInt 5)]"
proof -
  have a: "ProtoBuf_bytes [0x88, 0x00, 0x05] = Inr [ProtoField 1 VARINT (PyInt 5)]"
    by code_simp
  have b: "toBuf [ProtoField 1 VARINT (PyInt 5)] = Inr [0x08, 0x05]"
    by code_simp
  from serialize_parse_canonical[OF a] b
  have "ProtoBuf_bytes [0x08, 0x05] = Inr [ProtoField 1 VARINT (PyInt 5)]"
    by auto
  with a b show ?thesis by blast
qed




text \<open>
  C4 (as stated, refuted). A positive field number is not enough: with field number
  \<open>2^74\<close> the tag takes 12 bytes, which \<open>readVarint\<close> rejects.
\<close>

theorem put_roundtrip_large_field_number:
  "apply_puts [PutVarint (2 ^ 74) 1] [] = Inr [ProtoField (2 ^ 74) VARINT (PyInt 1)]
   \<and> 0 < put_idx (PutVarint (2 ^ 74) 1) \<and> value_in_range (PutVarint (2 ^ 74) 1)
   \<and> toBuf [ProtoField (2 ^ 74) VARINT (PyInt 1)]
       = Inr [0x80,0x80,0x80,0x80,0x80,0x80,0x80,0x80,0x80,0x80,0x80,0x01,0x01]
   \<and> ProtoBuf_bytes [0x80,0x80,0x80,0x80,0x80,0x80,0x80,0x80,0x80,0x80,0x80,0x01,0x01]
       = Inl (ProtoError (ParsingNear VarintTooLong))"
  by code_simp

text \<open>
  C4 (amended). For a tree \<open>T\<close> built only by scalar puts with field numbers from 1 to
  \<open>2^74 - 1\<close> and values in range, \<open>T.toBuf()\<close> succeeds and parsing it gives a tree
  equal to \<open>T\<close>: the same fields in the same order, with the same wire types and values.
\<close>

theorem put_roundtrip:
  assumes "list_all (\<lambda>p. 0 < put_idx p \<and> put_idx p < 2 ^ 74 \<and> value_in_range p) ps"
    and "apply_puts ps [] = Inr T"
  shows "\<exists>B. toBuf T = Inr B \<and> ProtoBuf_bytes B = Inr T"
proof -
  have wf: "list_all wf_field T"
    by (rule apply_puts_wf[OF assms]) simp
  then obtain B where B: "toBuf T = Inr B" using toBuf_wf_ok by blast
  with ProtoBuf_bytes_toBuf[OF wf B] show ?thesis by blast
qed

theorem put_roundtrip_witness:
  "apply_puts [PutVarint 1 300, PutUtf8 2 [0x68, 0x69], PutInt32 3 7] []
     = Inr [ProtoField 1 VARINT (PyInt 300), ProtoField 2 STRING (PyBytes [0x68, 0x69]),
            ProtoField 3 INT32 (PyInt 7)]
   \<and> toBuf [ProtoField 1 VARINT (PyInt 300), ProtoField 2 STRING (PyBytes [0x68, 0x69]),
            ProtoField 3 INT32 (PyInt 7)]
       = Inr [0x08, 0xAC, 0x02, 0x12, 0x02, 0x68, 0x69, 0x1D, 0x07, 0x00, 0x00, 0x00]
   \<and> ProtoBuf_bytes [0x08, 0xAC, 0x02, 0x12, 0x02, 0x68, 0x69, 0x1D, 0x07, 0x00, 0x00, 0x00]
       = Inr [ProtoField 1 VARINT (PyInt 300), ProtoField 2 STRING (PyBytes [0x68, 0x69]),
            ProtoField 3 INT32 (PyInt 7)]"
proof -
  let ?ps = "[PutVarint 1 300, PutUtf8 2 [0x68, 0x69], PutInt32 3 7]"
  let ?T = "[ProtoField 1 VARINT (PyInt 300), ProtoField 2 STRING (PyBytes [0x68, 0x69]),
            ProtoField 3 INT32 (PyInt 7)]"
  have a: "list_all (\<lambda>p. 0 < put_idx p \<and> put_idx p < 2 ^ 74 \<and> value_in_range p) ?ps"
    by code_simp
  have b: "apply_puts ?ps [] = Inr ?T"
    by code_simp
  have c: "toBuf ?T = Inr [0x08, 0xAC, 0x02, 0x12, 0x02, 0x68, 0x69, 0x1D, 0x07, 0x00, 0x00, 0x00]"
    by code_simp
  from put_roundtrip[OF a b] c b show ?thesis by auto
qed






text \<open>
  C6. A tree of two STRING fields numbered 7 with the values "a" and "b" is exported by
  \<open>toDictAuto\<close> as \<open>{7: ["a", "b"]}\<close>; \<open>ProtoBuf\<close> of that dictionary is the same tree,
  and exporting it again gives the same two-element list; a tree with the single field
  7 = "a" is exported as the bare scalar \<open>{7: "a"}\<close>. This holds for every table \<open>uni\<close>
  of the non-ASCII printable characters.
\<close>

theorem collapse_law:
  "toDictAuto uni [ProtoField 7 STRING (PyBytes [0x61]), ProtoField 7 STRING (PyBytes [0x62])]
     = Inr [(7, DList [DStr [0x61], DStr [0x62]])]
   \<and> ProtoBuf_dict [(7, DList [DStr [0x61], DStr [0x62]])]
     = Inr [ProtoField 7 STRING (PyBytes [0x61]), ProtoField 7 STRING (PyBytes [0x62])]
   \<and> (case ProtoBuf_dict [(7, DList [DStr [0x61], DStr [0x62]])] of
        Inl e \<Rightarrow> Inl e | Inr pb \<Rightarrow> toDictAuto uni pb)
     = Inr [(7, DList [DStr [0x61], DStr [0x62]])]
   \<and> toDictAuto uni [ProtoField 7 STRING (PyBytes [0x61])] = Inr [(7, DStr [0x61])]"
  by code_simp

end
